theory Spec2Isabelle
  imports Main "HOL-Library.Char_ord" "HOL-Library.List_Lexorder" "HOL-Library.Multiset"
begin

section \<open>Strings\<close>

text \<open>
  A Python \<open>str\<close> is modelled as a \<open>string\<close>, one \<open>char\<close> per code point; the model
  covers the code points below 256. The character classes are the ones Python's
  \<open>re\<close> module and \<open>str\<close> methods use on that range: \<open>\s\<close> and \<open>str.strip\<close> agree on
  the white space, \<open>\d\<close> is the ten decimal digits, \<open>\w\<close> is the alphanumeric
  characters and the underscore.
\<close>

definition is_space :: "char \<Rightarrow> bool" where
  "is_space c =
     (let n = (of_char c :: nat)
      in (9 \<le> n \<and> n \<le> 13) \<or> (28 \<le> n \<and> n \<le> 32) \<or> n = 133 \<or> n = 160)"

definition is_digit :: "char \<Rightarrow> bool" where
  "is_digit c = (let n = (of_char c :: nat) in 48 \<le> n \<and> n \<le> 57)"

definition is_word :: "char \<Rightarrow> bool" where
  "is_word c =
     (let n = (of_char c :: nat)
      in (48 \<le> n \<and> n \<le> 57) \<or> (65 \<le> n \<and> n \<le> 90) \<or> n = 95 \<or> (97 \<le> n \<and> n \<le> 122)
         \<or> n = 170 \<or> n = 178 \<or> n = 179 \<or> n = 181 \<or> n = 185 \<or> n = 186
         \<or> (188 \<le> n \<and> n \<le> 190) \<or> (192 \<le> n \<and> n \<le> 214) \<or> (216 \<le> n \<and> n \<le> 246)
         \<or> (248 \<le> n \<and> n \<le> 255))"

definition lower_char :: "char \<Rightarrow> char" where
  "lower_char c =
     (let n = (of_char c :: nat)
      in if (65 \<le> n \<and> n \<le> 90) \<or> (192 \<le> n \<and> n \<le> 214) \<or> (216 \<le> n \<and> n \<le> 222)
         then char_of (n + 32) else c)"

text \<open>\<open>s.lower()\<close>\<close>

definition lower :: "string \<Rightarrow> string" where
  "lower s = map lower_char s"

text \<open>\<open>s.strip()\<close>\<close>

definition strip :: "string \<Rightarrow> string" where
  "strip s = rev (dropWhile is_space (rev (dropWhile is_space s)))"

text \<open>\<open>s.startswith(p)\<close>\<close>

fun startswith :: "string \<Rightarrow> string \<Rightarrow> bool" where
  "startswith s [] = True"
| "startswith [] (p # ps) = False"
| "startswith (c # cs) (p # ps) = (c = p \<and> startswith cs ps)"

text \<open>\<open>sub in s\<close>\<close>

fun str_in :: "string \<Rightarrow> string \<Rightarrow> bool" where
  "str_in sub [] = (sub = [])"
| "str_in sub (c # cs) = (startswith (c # cs) sub \<or> str_in sub cs)"

section \<open>Category classification (pdf\_downloader.py)\<close>

text \<open>\<open>ECBPDFDownloader.determine_category\<close>: the chain of \<open>if\<close>/\<open>elif\<close> tests.\<close>

definition determine_category :: "string \<Rightarrow> string \<Rightarrow> string" where
  "determine_category title url =
     (let title_lower = lower title; url_lower = lower url
      in if str_in ''monetary policy'' title_lower \<or> str_in ''/mopo/'' url_lower
           then ''Monetary policy statement''
         else if str_in ''economic bulletin'' title_lower then ''Economic Bulletin''
         else if str_in ''financial stability'' title_lower then ''Financial Stability Review''
         else if str_in ''speech'' url_lower \<or> str_in ''key'' url_lower then ''Speech''
         else if str_in ''interview'' url_lower then ''Interview''
         else if str_in ''blog'' url_lower then ''Blog''
         else if str_in ''statistics'' title_lower \<or> str_in ''/stats/'' url_lower
           then ''Statistical release''
         else if str_in ''press'' url_lower \<or> str_in ''/pr/'' url_lower then ''Press release''
         else ''Report'')"

text \<open>
  The rule list as the specification words it: eight rules in order, each with the
  keywords looked for in the title, the keywords looked for in the url, and the category;
  a rule matches when one of its keywords occurs in the lower-cased field; the first
  matching rule decides, and without a match the category is the default.
\<close>

type_synonym rule = "string list \<times> string list \<times> string"

definition category_rules :: "rule list" where
  "category_rules =
     [([''monetary policy''], [''/mopo/''], ''Monetary policy statement''),
      ([''economic bulletin''], [], ''Economic Bulletin''),
      ([''financial stability''], [], ''Financial Stability Review''),
      ([], [''speech'', ''key''], ''Speech''),
      ([], [''interview''], ''Interview''),
      ([], [''blog''], ''Blog''),
      ([''statistics''], [''/stats/''], ''Statistical release''),
      ([], [''press'', ''/pr/''], ''Press release'')]"

fun rule_matches :: "string \<Rightarrow> string \<Rightarrow> rule \<Rightarrow> bool" where
  "rule_matches title url (title_keys, url_keys, category) =
     (list_ex (\<lambda>k. str_in k (lower title)) title_keys
      \<or> list_ex (\<lambda>k. str_in k (lower url)) url_keys)"

fun first_match :: "rule list \<Rightarrow> string \<Rightarrow> string \<Rightarrow> string" where
  "first_match [] title url = ''Report''"
| "first_match (r # rs) title url =
     (if rule_matches title url r then snd (snd r) else first_match rs title url)"

section \<open>More string operations\<close>

text \<open>\<open>s.endswith(p)\<close>\<close>

definition endswith :: "string \<Rightarrow> string \<Rightarrow> bool" where
  "endswith s p = startswith (rev s) (rev p)"

text \<open>\<open>s.strip(chars)\<close> and \<open>s.rstrip(chars)\<close>, the characters given as a predicate.\<close>

definition strip_chars :: "(char \<Rightarrow> bool) \<Rightarrow> string \<Rightarrow> string" where
  "strip_chars p s = rev (dropWhile p (rev (dropWhile p s)))"

definition rstrip_chars :: "(char \<Rightarrow> bool) \<Rightarrow> string \<Rightarrow> string" where
  "rstrip_chars p s = rev (dropWhile p (rev s))"

text \<open>
  \<open>s.split(sep, maxsplit)\<close> for a non-empty separator: the string is cut at the first
  \<open>maxsplit\<close> occurrences of the separator, found from the left.
\<close>

fun split_once :: "string \<Rightarrow> string \<Rightarrow> (string \<times> string) option" where
  "split_once sep [] = None"
| "split_once sep (c # cs) =
     (if startswith (c # cs) sep then Some ([], drop (length sep) (c # cs))
      else case split_once sep cs of
             None \<Rightarrow> None
           | Some (front, back) \<Rightarrow> Some (c # front, back))"

fun split_max :: "string \<Rightarrow> nat \<Rightarrow> string \<Rightarrow> string list" where
  "split_max sep 0 s = [s]"
| "split_max sep (Suc n) s =
     (case split_once sep s of
        None \<Rightarrow> [s]
      | Some (front, back) \<Rightarrow> front # split_max sep n back)"

text \<open>\<open>sep.join(xs)\<close>\<close>

fun join :: "string \<Rightarrow> string list \<Rightarrow> string" where
  "join sep [] = []"
| "join sep [x] = x"
| "join sep (x # y # ys) = x @ sep @ join sep (y # ys)"

text \<open>The decimal numeral of a natural number, as an f-string renders a counter.\<close>

definition digit_char :: "nat \<Rightarrow> char" where
  "digit_char n = char_of (48 + n)"

fun str_of_nat :: "nat \<Rightarrow> string" where
  "str_of_nat n =
     (if n < 10 then [digit_char n] else str_of_nat (n div 10) @ [digit_char (n mod 10)])"

declare str_of_nat.simps [simp del]

text \<open>\<open>s.zfill(width)\<close>: zeros are put after a leading sign.\<close>

definition zfill :: "nat \<Rightarrow> string \<Rightarrow> string" where
  "zfill width s =
     (case s of
        [] \<Rightarrow> replicate width CHR ''0''
      | c # cs \<Rightarrow>
          if c = CHR ''+'' \<or> c = CHR ''-''
          then c # replicate (width - length s) CHR ''0'' @ cs
          else replicate (width - length s) CHR ''0'' @ s)"

section \<open>Regular expressions\<close>

text \<open>
  Every pattern of this program is a sequence of character classes under greedy counted
  repetition, possibly closed by the end anchor \<open>$\<close>. A pattern is a list of items.
  Matching an item list at the start of a string tries the longest repetition first and
  backtracks to shorter ones, as the \<open>re\<close> module does; the result is the text matched by
  each item and the rest of the string. Without the MULTILINE flag \<open>$\<close> matches at the end
  of the string and before a line feed that ends the string.
\<close>

datatype item = Rep "char \<Rightarrow> bool" nat "nat option" | End

definition longest :: "(char \<Rightarrow> bool) \<Rightarrow> nat option \<Rightarrow> string \<Rightarrow> nat" where
  "longest c hi s =
     (let n = length (takeWhile c s) in case hi of None \<Rightarrow> n | Some h \<Rightarrow> min h n)"

fun first_some :: "('a \<Rightarrow> 'b option) \<Rightarrow> 'a list \<Rightarrow> 'b option" where
  "first_some f [] = None"
| "first_some f (x # xs) = (case f x of Some y \<Rightarrow> Some y | None \<Rightarrow> first_some f xs)"

fun match_items :: "item list \<Rightarrow> string \<Rightarrow> (string list \<times> string) option" where
  "match_items [] s = Some ([], s)"
| "match_items (End # its) s =
     (if s = [] \<or> s = [CHR 0x0A]
      then map_option (\<lambda>(caps, r). ([] # caps, r)) (match_items its s) else None)"
| "match_items (Rep c lo hi # its) s =
     first_some
       (\<lambda>k. map_option (\<lambda>(caps, r). (take k s # caps, r)) (match_items its (drop k s)))
       (rev [lo ..< Suc (longest c hi s)])"

text \<open>
  \<open>re.search\<close>: the match at the leftmost position that has one, with the text before it.
\<close>

fun search :: "item list \<Rightarrow> string \<Rightarrow> (string \<times> string list \<times> string) option" where
  "search its [] = map_option (\<lambda>(caps, r). ([], caps, r)) (match_items its [])"
| "search its (c # cs) =
     (case match_items its (c # cs) of
        Some (caps, r) \<Rightarrow> Some ([], caps, r)
      | None \<Rightarrow> map_option (\<lambda>(pre, caps, r). (c # pre, caps, r)) (search its cs))"

text \<open>
  \<open>re.sub(pattern, repl, s)\<close> for a pattern that matches no empty string, as all the
  patterns substituted in this program are: every match leaves a shorter rest, which is
  searched in turn. The test on the lengths holds at every call for such a pattern; the
  replacement of empty matches is not part of the model.
\<close>

function sub_all :: "item list \<Rightarrow> string \<Rightarrow> string \<Rightarrow> string" where
  "sub_all its repl s =
     (case search its s of
        None \<Rightarrow> s
      | Some (pre, caps, r) \<Rightarrow>
          if length r < length s then pre @ repl @ sub_all its repl r else s)"
  by pat_completeness auto
termination
  by (relation "measure (\<lambda>(its, repl, s). length s)") auto

declare sub_all.simps [simp del]

definition lit :: "char \<Rightarrow> item" where
  "lit a = Rep (\<lambda>c. c = a) 1 (Some 1)"

section \<open>Date parsing (ecb\_scrapper.py)\<close>

text \<open>\<open>self.month_names\<close>\<close>

definition month_names :: "string \<rightharpoonup> string" where
  "month_names = map_of
     [(''January'', ''01''), (''February'', ''02''), (''March'', ''03''), (''April'', ''04''),
      (''May'', ''05''), (''June'', ''06''), (''July'', ''07''), (''August'', ''08''),
      (''September'', ''09''), (''October'', ''10''), (''November'', ''11''),
      (''December'', ''12'')]"

text \<open>\<^verbatim>\<open>(\d{1,2})\s+(\w+)\s+(\d{4})\<close> and \<^verbatim>\<open>(\d{4})-(\d{2})-(\d{2})\<close>\<close>

definition dmy_pattern :: "item list" where
  "dmy_pattern = [Rep is_digit 1 (Some 2), Rep is_space 1 None, Rep is_word 1 None,
                  Rep is_space 1 None, Rep is_digit 4 (Some 4)]"

definition iso_pattern :: "item list" where
  "iso_pattern = [Rep is_digit 4 (Some 4), lit CHR ''-'', Rep is_digit 2 (Some 2),
                  lit CHR ''-'', Rep is_digit 2 (Some 2)]"

text \<open>The three groups of the first pattern, and group 0 of the second.\<close>

definition dmy_search :: "string \<Rightarrow> (string \<times> string \<times> string) option" where
  "dmy_search date_text =
     (case search dmy_pattern date_text of
        Some (pre, [day, ws1, month, ws2, year], r) \<Rightarrow> Some (day, month, year)
      | _ \<Rightarrow> None)"

definition iso_search :: "string \<Rightarrow> string option" where
  "iso_search date_text =
     (case search iso_pattern date_text of
        Some (pre, caps, r) \<Rightarrow> Some (concat caps)
      | None \<Rightarrow> None)"

text \<open>\<open>ECBScraper.parse_date\<close>; the result \<open>None\<close> is Python's \<open>None\<close>.\<close>

definition parse_date :: "string \<Rightarrow> string option" where
  "parse_date date_text0 =
     (if date_text0 = [] then None
      else let date_text = strip date_text0
           in case dmy_search date_text of
                Some (day, month, year) \<Rightarrow>
                  (case month_names month of
                     Some month_num \<Rightarrow> Some (year @ ''-'' @ month_num @ ''-'' @ zfill 2 day)
                   | None \<Rightarrow> iso_search date_text)
              | None \<Rightarrow> iso_search date_text)"

text \<open>
  The two date forms said directly, without the matcher. A string begins with the form
  \<open>D word YYYY\<close> when it begins with a run of one or two digits, then white space, then
  a run of word characters, then white space, then four digits; it begins with the ISO
  form when its first ten characters are \<open>dddd-dd-dd\<close>. \<open>leftmost\<close> takes the first
  position of a string at which a form begins.
\<close>

definition dmy_form :: "string \<Rightarrow> (string \<times> string \<times> string) option" where
  "dmy_form s =
     (let day = takeWhile is_digit s; s1 = dropWhile is_digit s;
          ws1 = takeWhile is_space s1; s2 = dropWhile is_space s1;
          word = takeWhile is_word s2; s3 = dropWhile is_word s2;
          ws2 = takeWhile is_space s3; s4 = dropWhile is_space s3;
          year = take 4 s4
      in if 1 \<le> length day \<and> length day \<le> 2 \<and> ws1 \<noteq> [] \<and> word \<noteq> [] \<and> ws2 \<noteq> []
            \<and> length year = 4 \<and> list_all is_digit year
         then Some (day, word, year) else None)"

definition iso_shaped :: "string \<Rightarrow> bool" where
  "iso_shaped x =
     (length x = 10 \<and> list_all is_digit (take 4 x) \<and> x ! 4 = CHR ''-''
      \<and> list_all is_digit (take 2 (drop 5 x)) \<and> x ! 7 = CHR ''-''
      \<and> list_all is_digit (drop 8 x))"

definition iso_form :: "string \<Rightarrow> string option" where
  "iso_form s = (if iso_shaped (take 10 s) then Some (take 10 s) else None)"

fun leftmost :: "(string \<Rightarrow> 'a option) \<Rightarrow> string \<Rightarrow> 'a option" where
  "leftmost f [] = f []"
| "leftmost f (c # cs) = (case f (c # cs) of Some x \<Rightarrow> Some x | None \<Rightarrow> leftmost f cs)"

text \<open>
  A string contains a \<open>D Month YYYY\<close> form with the month name in the table when the form
  begins at some position of it, with a word that the table has.
\<close>

fun has_month_form :: "string \<Rightarrow> bool" where
  "has_month_form [] = False"
| "has_month_form (c # cs) =
     ((case dmy_form (c # cs) of
         Some (day, word, year) \<Rightarrow> month_names word \<noteq> None
       | None \<Rightarrow> False)
      \<or> has_month_form cs)"

section \<open>Extraction (ecb\_scrapper.py)\<close>

text \<open>
  The markup parser is an external collaborator; the model starts from what its queries
  return, in document order. A link is an \<open>a\<close> element that has an \<open>href\<close> attribute,
  with its stripped text, the value of the attribute, and whether it has an enclosing
  \<open>div\<close> of class \<open>accordion\<close>. A \<open>dl\<close> element is given by the stripped texts of its
  \<open>dt\<close> elements and, for each of its \<open>dd\<close> elements, the links in it. The parsed
  snapshot is the list of \<open>dl\<close> elements in the \<open>dl-wrapper\<close> container, or \<open>None\<close>
  when there is no such container.
\<close>

record link =
  link_text :: string
  href :: string
  in_accordion :: bool

record dl =
  dt_elements :: "string list"
  dd_elements :: "link list list"

type_synonym soup = "dl list option"

record publication =
  pub_date :: string
  pub_title :: string
  pub_url :: string
  original_date_text :: string

text \<open>\<open>title.replace('|', '-')\<close>\<close>

definition replace_pipes :: "string \<Rightarrow> string" where
  "replace_pipes s = map (\<lambda>c. if c = CHR ''|'' then CHR ''-'' else c) s"

definition absolute_url :: "string \<Rightarrow> string" where
  "absolute_url u = (if startswith u ''/'' then ''https://www.ecb.europa.eu'' @ u else u)"

text \<open>
  The three nested loops of \<open>extract_publications_from_html\<close>, each with its test of
  the limit before an element is handled; \<open>max_publications\<close> is a count, a natural
  number. The \<open>dt\<close> loop runs with the index \<open>i\<close> of \<open>enumerate\<close>, and pairs the
  \<open>i\<close>-th \<open>dt\<close> with the \<open>i\<close>-th \<open>dd\<close> when there is one.
\<close>

fun link_loop :: "nat \<Rightarrow> string \<Rightarrow> link list \<Rightarrow> publication list \<Rightarrow> publication list" where
  "link_loop max_publications date_text [] publications = publications"
| "link_loop max_publications date_text (l # links) publications =
     (if length publications \<ge> max_publications then publications
      else if in_accordion l then link_loop max_publications date_text links publications
      else if link_text l \<noteq> [] \<and> absolute_url (href l) \<noteq> [] then
        (case parse_date date_text of
           Some parsed_date \<Rightarrow>
             link_loop max_publications date_text links
               (publications @
                [\<lparr>pub_date = parsed_date, pub_title = replace_pipes (link_text l),
                  pub_url = absolute_url (href l), original_date_text = date_text\<rparr>])
         | None \<Rightarrow> link_loop max_publications date_text links publications)
      else link_loop max_publications date_text links publications)"

fun dt_loop :: "nat \<Rightarrow> link list list \<Rightarrow> nat \<Rightarrow> string list \<Rightarrow> publication list
                \<Rightarrow> publication list" where
  "dt_loop max_publications dds i [] publications = publications"
| "dt_loop max_publications dds i (date_text # dts) publications =
     (if length publications \<ge> max_publications then publications
      else if i < length dds
        then dt_loop max_publications dds (Suc i) dts
               (link_loop max_publications date_text (dds ! i) publications)
        else dt_loop max_publications dds (Suc i) dts publications)"

fun dl_loop :: "nat \<Rightarrow> dl list \<Rightarrow> publication list \<Rightarrow> publication list" where
  "dl_loop max_publications [] publications = publications"
| "dl_loop max_publications (d # dls) publications =
     (if length publications \<ge> max_publications then publications
      else dl_loop max_publications dls
             (dt_loop max_publications (dd_elements d) 0 (dt_elements d) publications))"

definition extract_publications_from_html :: "nat \<Rightarrow> soup \<Rightarrow> publication list" where
  "extract_publications_from_html max_publications html =
     (case html of
        None \<Rightarrow> []
      | Some dl_elements \<Rightarrow> dl_loop max_publications dl_elements [])"

text \<open>
  The candidate links of a snapshot, in document order, each with the text of its
  heading: the links of every \<open>dd\<close> that has a \<open>dt\<close> of the same index, kept when the
  test \<open>P\<close> accepts them. The claim's candidates are the links outside an accordion region
  with a non-empty title and a heading that parses; the links that the code emits have a
  non-empty target as well.
\<close>

definition candidate_links ::
    "(string \<Rightarrow> link \<Rightarrow> bool) \<Rightarrow> dl list \<Rightarrow> (string \<times> link) list" where
  "candidate_links P dls =
     concat (map (\<lambda>d. concat (map (\<lambda>(date_text, links).
                                      map (Pair date_text) (filter (P date_text) links))
                                   (zip (dt_elements d) (dd_elements d)))) dls)"

definition claimed_candidate :: "string \<Rightarrow> link \<Rightarrow> bool" where
  "claimed_candidate date_text l =
     (\<not> in_accordion l \<and> link_text l \<noteq> [] \<and> parse_date date_text \<noteq> None)"

definition emitted_candidate :: "string \<Rightarrow> link \<Rightarrow> bool" where
  "emitted_candidate date_text l = (claimed_candidate date_text l \<and> href l \<noteq> [])"

definition publication_of :: "string \<times> link \<Rightarrow> publication" where
  "publication_of dl =
     \<lparr>pub_date = (case parse_date (fst dl) of Some d \<Rightarrow> d | None \<Rightarrow> []),
      pub_title = replace_pipes (link_text (snd dl)),
      pub_url = absolute_url (href (snd dl)), original_date_text = fst dl\<rparr>"

section \<open>Dedup and ranking (ecb\_scrapper.py)\<close>

text \<open>The loop of \<open>run\<close> over the extracted records, with \<open>unique_pubs\<close> and \<open>seen_urls\<close>.\<close>

fun dedup_loop :: "publication list \<Rightarrow> publication list \<Rightarrow> string set \<Rightarrow> publication list" where
  "dedup_loop [] unique_pubs seen_urls = unique_pubs"
| "dedup_loop (pub # pubs) unique_pubs seen_urls =
     (if pub_url pub \<notin> seen_urls
      then dedup_loop pubs (unique_pubs @ [pub]) (insert (pub_url pub) seen_urls)
      else dedup_loop pubs unique_pubs seen_urls)"

text \<open>
  \<open>xs.sort(key=f, reverse=True)\<close>: the list is reversed, sorted stably in ascending key
  order, and reversed again, which is how the built-in sort keeps the order of equal
  keys under \<open>reverse\<close>. Strings compare by code points, lexicographically.
\<close>

definition sort_reverse :: "('a \<Rightarrow> 'k::linorder) \<Rightarrow> 'a list \<Rightarrow> 'a list" where
  "sort_reverse f xs = rev (sort_key f (rev xs))"

definition dedup_and_rank :: "publication list \<Rightarrow> publication list" where
  "dedup_and_rank publications = sort_reverse pub_date (dedup_loop publications [] {})"

section \<open>File names (pdf\_downloader.py)\<close>

text \<open>\<^verbatim>\<open>[;:\'"{}^%~#|<>\\[\]\s/]\<close>, \<^verbatim>\<open>_+\<close> and \<^verbatim>\<open>_At\d+$\<close>\<close>

definition is_special :: "char \<Rightarrow> bool" where
  "is_special c =
     (c \<in> set [CHR '';'', CHR '':'', CHR 0x27, CHR 0x22, CHR ''{'', CHR ''}'', CHR ''^'',
               CHR ''%'', CHR ''~'', CHR ''#'', CHR ''|'', CHR ''<'', CHR ''>'', CHR 0x5C,
               CHR ''['', CHR '']'', CHR ''/'']
      \<or> is_space c)"

definition special_pattern :: "item list" where
  "special_pattern = [Rep is_special 1 (Some 1)]"

definition underscores_pattern :: "item list" where
  "underscores_pattern = [Rep (\<lambda>c. c = CHR ''_'') 1 None]"

definition at_pattern :: "item list" where
  "at_pattern = [lit CHR ''_'', lit CHR ''A'', lit CHR ''t'', Rep is_digit 1 None, End]"

text \<open>\<open>ECBPDFDownloader.sanitize_filename\<close> and \<open>generate_filename\<close>\<close>

definition sanitize_filename :: "string \<Rightarrow> nat \<Rightarrow> string" where
  "sanitize_filename title_text max_length =
     (let clean1 = sub_all special_pattern ''_'' title_text;
          clean2 = sub_all underscores_pattern ''_'' clean1;
          clean3 = strip_chars (\<lambda>c. c = CHR ''_'') clean2
      in if length clean3 > max_length
         then rstrip_chars (\<lambda>c. c = CHR ''_'') (take max_length clean3)
         else clean3)"

definition generate_filename :: "string \<Rightarrow> string \<Rightarrow> nat \<Rightarrow> string" where
  "generate_filename date_text title_text counter =
     (let clean_title = sanitize_filename title_text 200
      in if counter > 0
         then date_text @ ''_'' @ clean_title @ ''_At'' @ str_of_nat counter
         else date_text @ ''_'' @ clean_title)"

text \<open>
  \<open>ECBPDFDownloader.check_duplicate_filename\<close>. The downloads directory is the set of
  the file names for which \<open>filepath.exists()\<close> is true. The body of the loop computes
  the name for the counter; the loop runs while the name exists, and the value \<open>None\<close>
  stands for a loop that never ends.
\<close>

definition next_filename :: "string \<Rightarrow> string \<Rightarrow> nat \<Rightarrow> string" where
  "next_filename base_filename extension counter =
     (case split_max ''_'' 1 base_filename of
        date_part # title_part0 # _ \<Rightarrow>
          date_part @ ''_'' @ sub_all at_pattern [] title_part0
            @ ''_At'' @ str_of_nat counter @ ''.'' @ extension
      | _ \<Rightarrow> base_filename @ ''_At'' @ str_of_nat counter @ ''.'' @ extension)"

partial_function (option) check_loop ::
    "string set \<Rightarrow> string \<Rightarrow> string \<Rightarrow> nat \<Rightarrow> string \<Rightarrow> string option" where
  "check_loop directory base_filename extension counter filename =
     (if filename \<in> directory
      then check_loop directory base_filename extension (counter + 1)
             (next_filename base_filename extension (counter + 1))
      else Some filename)"

definition check_duplicate_filename :: "string set \<Rightarrow> string \<Rightarrow> string \<Rightarrow> string option" where
  "check_duplicate_filename directory base_filename extension =
     check_loop directory base_filename extension 0 (base_filename @ ''.'' @ extension)"



section \<open>Retrying (both files)\<close>

text \<open>
  The exceptions that the model tells apart: the three classes that the primary
  download retries on, the error that the fallback raises for a bad status, any other
  \<open>Exception\<close>, and the error of the retry wrapper when the attempts are used up.
  Exceptions outside \<open>Exception\<close> (a cancellation, a keyboard interrupt) are not modelled.
\<close>

datatype exn = ClientError | ServerTimeoutError | OSError | HTTPError | OtherException
  | RetryError

datatype 'a outcome = Returned 'a | Raised exn

text \<open>
  The arguments of the \<open>retry\<close> decorator: \<open>stop_after_attempt\<close>, the \<open>wait\<close> strategy as
  a function of the number of the attempt that failed, and the predicate of
  \<open>retry_if_exception_type\<close>.
\<close>

record policy =
  stop_after_attempt :: nat
  wait :: "nat \<Rightarrow> nat"
  retry_if :: "exn \<Rightarrow> bool"

text \<open>
  Modelled from the spec: the retry wrapper (section 4.1), which the source takes from
  the \<open>tenacity\<close> library as a decorator. The operation is tried; on a failure that the
  predicate accepts, with attempts remaining, the wrapper sleeps and tries again; a failure
  that the predicate rejects is propagated at once, and when no attempt remains the
  wrapper raises its own error. The operation is given by the outcome of each of its
  attempts, numbered from 1. The result has the outcome, the number of attempts made, and
  the sleeps in order.
\<close>

function retry_loop ::
    "policy \<Rightarrow> (nat \<Rightarrow> 'a outcome) \<Rightarrow> nat \<Rightarrow> nat list \<Rightarrow> 'a outcome \<times> nat \<times> nat list" where
  "retry_loop p operation attempt sleeps =
     (case operation attempt of
        Returned v \<Rightarrow> (Returned v, attempt, sleeps)
      | Raised e \<Rightarrow>
          if \<not> retry_if p e then (Raised e, attempt, sleeps)
          else if attempt \<ge> stop_after_attempt p then (Raised RetryError, attempt, sleeps)
          else retry_loop p operation (Suc attempt) (sleeps @ [wait p attempt]))"
  by pat_completeness auto
termination
  by (relation "measure (\<lambda>(p, operation, attempt, sleeps). stop_after_attempt p - attempt)")
     auto

declare retry_loop.simps [simp del]

definition retry :: "policy \<Rightarrow> (nat \<Rightarrow> 'a outcome) \<Rightarrow> 'a outcome \<times> nat \<times> nat list" where
  "retry p operation = retry_loop p operation 1 []"

text \<open>
  The wait strategy \<open>wait_exponential(multiplier, min, max)\<close> of the \<open>tenacity\<close> library,
  which is a dependency and not part of the source files: the wait after the failed
  attempt \<open>k\<close> is \<open>multiplier * 2 ^ (k - 1)\<close>, not above \<open>max\<close> and not below \<open>min\<close>. No
  call site changes the base 2. Delays are whole seconds.
\<close>

definition wait_exponential :: "nat \<Rightarrow> nat \<Rightarrow> nat \<Rightarrow> nat \<Rightarrow> nat" where
  "wait_exponential multiplier min_delay max_delay attempt =
     max min_delay (min (multiplier * 2 ^ (attempt - 1)) max_delay)"

text \<open>The delay as the specification words it.\<close>

definition spec_delay :: "nat \<Rightarrow> nat \<Rightarrow> nat \<Rightarrow> nat \<Rightarrow> nat" where
  "spec_delay multiplier min_delay max_delay attempt =
     min max_delay (min_delay * multiplier ^ (attempt - 1))"

text \<open>
  The decorated call sites of the two files, each with its \<open>(attempts, multiplier, min,
  max)\<close>: in ecb\_scrapper.py \<open>launch_browser\<close>, \<open>navigate_to_page\<close>,
  \<open>wait_for_dl_wrapper\<close>, \<open>get_page_height\<close>, \<open>scroll_to_bottom\<close>, \<open>get_page_content\<close>; in
  pdf\_downloader.py \<open>init_browser\<close>, \<open>download_pdf_with_aiohttp\<close>,
  \<open>download_pdf_with_requests\<close>, \<open>navigate_and_extract_creator\<close>,
  \<open>generate_pdf_from_page\<close>.
\<close>

definition call_sites :: "(string \<times> nat \<times> nat \<times> nat \<times> nat) list" where
  "call_sites =
     [(''launch_browser'', 3, 1, 2, 10),
      (''navigate_to_page'', 3, 1, 2, 10),
      (''wait_for_dl_wrapper'', 3, 1, 2, 10),
      (''get_page_height'', 3, 1, 1, 5),
      (''scroll_to_bottom'', 3, 1, 1, 5),
      (''get_page_content'', 3, 1, 2, 8),
      (''init_browser'', 3, 1, 2, 10),
      (''download_pdf_with_aiohttp'', 3, 1, 2, 8),
      (''download_pdf_with_requests'', 2, 1, 2, 6),
      (''navigate_and_extract_creator'', 3, 1, 2, 10),
      (''generate_pdf_from_page'', 3, 1, 2, 10)]"

definition any_exception :: "exn \<Rightarrow> bool" where
  "any_exception e = True"

definition aiohttp_errors :: "exn \<Rightarrow> bool" where
  "aiohttp_errors e = (e = ClientError \<or> e = ServerTimeoutError \<or> e = OSError)"

definition aiohttp_policy :: policy where
  "aiohttp_policy =
     \<lparr>stop_after_attempt = 3, wait = wait_exponential 1 2 8, retry_if = aiohttp_errors\<rparr>"

definition requests_policy :: policy where
  "requests_policy =
     \<lparr>stop_after_attempt = 2, wait = wait_exponential 1 2 6, retry_if = any_exception\<rparr>"

definition browser_policy :: policy where
  "browser_policy =
     \<lparr>stop_after_attempt = 3, wait = wait_exponential 1 2 10, retry_if = any_exception\<rparr>"

section \<open>Downloading (pdf\_downloader.py)\<close>

text \<open>
  What one attempt meets: a response with its status, or an exception of the transport
  or of the writing of the file.
\<close>

datatype response = Status nat | Failure exn

text \<open>
  The bodies of \<open>download_pdf_with_aiohttp\<close> and \<open>download_pdf_with_requests\<close>: status
  200 writes the file and returns \<open>True\<close>; another status raises
  \<open>ClientResponseError\<close>, a \<open>ClientError\<close>, in the first and \<open>HTTPError\<close> in the second.
\<close>

definition download_pdf_with_aiohttp :: "response \<Rightarrow> bool outcome" where
  "download_pdf_with_aiohttp resp =
     (case resp of
        Status code \<Rightarrow> if code = 200 then Returned True else Raised ClientError
      | Failure e \<Rightarrow> Raised e)"

definition download_pdf_with_requests :: "response \<Rightarrow> bool outcome" where
  "download_pdf_with_requests resp =
     (case resp of
        Status code \<Rightarrow> if code = 200 then Returned True else Raised HTTPError
      | Failure e \<Rightarrow> Raised e)"

text \<open>
  \<open>ECBPDFDownloader.download_pdf\<close>, given what the attempts of the two transports meet.
  Besides the boolean result the model returns how many attempts each transport made;
  the fallback is invoked exactly when its count is not zero.
\<close>

record download =
  succeeded :: bool
  primary_attempts :: nat
  fallback_attempts :: nat

definition download_pdf :: "(nat \<Rightarrow> response) \<Rightarrow> (nat \<Rightarrow> response) \<Rightarrow> download" where
  "download_pdf primary fallback =
     (case retry aiohttp_policy (\<lambda>k. download_pdf_with_aiohttp (primary k)) of
        (Returned v, n, sleeps) \<Rightarrow>
          \<lparr>succeeded = True, primary_attempts = n, fallback_attempts = 0\<rparr>
      | (Raised e, n, sleeps) \<Rightarrow>
          (case retry requests_policy (\<lambda>k. download_pdf_with_requests (fallback k)) of
             (Returned v, m, sleeps') \<Rightarrow>
               \<lparr>succeeded = True, primary_attempts = n, fallback_attempts = m\<rparr>
           | (Raised e', m, sleeps') \<Rightarrow>
               \<lparr>succeeded = False, primary_attempts = n, fallback_attempts = m\<rparr>))"

text \<open>
  \<open>ECBPDFDownloader.html_to_pdf\<close>: a new page, the navigation with the extraction of the
  creator, the rendering, and the closing of the page; the two middle steps are retried
  on any exception. Every exception ends in \<open>(False, "")\<close>.
\<close>

record render =
  new_page :: "unit outcome"
  navigate_and_extract_creator :: "nat \<Rightarrow> string outcome"
  generate_pdf_from_page :: "nat \<Rightarrow> unit outcome"
  close_page :: "unit outcome"

definition html_to_pdf :: "render \<Rightarrow> bool \<times> string" where
  "html_to_pdf r =
     (case new_page r of
        Raised e \<Rightarrow> (False, [])
      | Returned u \<Rightarrow>
          (case retry browser_policy (navigate_and_extract_creator r) of
             (Raised e, n, sleeps) \<Rightarrow> (False, [])
           | (Returned creator_name, n, sleeps) \<Rightarrow>
               (case retry browser_policy (generate_pdf_from_page r) of
                  (Raised e, m, sleeps') \<Rightarrow> (False, [])
                | (Returned u', m, sleeps') \<Rightarrow>
                    (case close_page r of
                       Raised e \<Rightarrow> (False, [])
                     | Returned u'' \<Rightarrow> (True, creator_name)))))"

section \<open>Processing the records (pdf\_downloader.py)\<close>

text \<open>
  The descriptor that \<open>generate_metadata\<close> builds, \<open>category\<close> and \<open>language\<close> being its
  custom attributes (the reserved map of raw attributes is empty and left out). The
  clock and the parsing of the date belong to the \<open>datetime\<close> library. The function
  reads the clock twice, once when \<open>strptime\<close> rejects the date and once for
  \<open>created_at\<close>: the environment gives the two instants as text, and for a date either
  the text of its instant at 09:00 UTC or \<open>None\<close> when \<open>strptime\<close> rejects it.
\<close>

record metadata =
  dataset_name :: string
  dataset_code :: string
  source_uri :: string
  created_at :: string
  creator :: string
  publisher :: string
  publication_date :: string
  publication_title :: string
  ingest_source :: string
  category :: string
  language :: string

definition generate_metadata ::
    "string \<Rightarrow> string \<Rightarrow> (string \<Rightarrow> string option) \<Rightarrow> string \<Rightarrow> string \<Rightarrow> string \<Rightarrow> string
     \<Rightarrow> metadata"
  where
  "generate_metadata now_parsing now_created strptime date_text title_text url_text
       creator_name =
     \<lparr>dataset_name = ''Central Bank EUR'', dataset_code = ''CB_EUR_ECB'',
      source_uri = url_text, created_at = now_created, creator = creator_name,
      publisher = ''European Central Bank'',
      publication_date = (case strptime date_text of Some d \<Rightarrow> d | None \<Rightarrow> now_parsing),
      publication_title = title_text, ingest_source = ''CB_EUR_ECB_LDR'',
      category = determine_category title_text url_text, language = ''English''\<rparr>"

text \<open>
  The state is the downloads directory, as the set of the names that exist, and the
  sidecars in the order in which they were written. What one record meets is the
  environment of its retrieval and of the writing of its sidecar: a failed retrieval may
  or may not leave a file of the artifact's name behind, and the writing of the sidecar
  returns or raises; a write that raises is taken to leave no file.
\<close>

record world =
  downloads_dir :: "string set"
  sidecars :: "(string \<times> metadata) list"

record environment =
  primary_responses :: "nat \<Rightarrow> response"
  fallback_responses :: "nat \<Rightarrow> response"
  rendering :: render
  leaves_file :: bool
  sidecar_write :: "unit outcome"
  clock_when_parsing_fails :: string
  clock_at_creation :: string
  strptime_at_nine :: "string \<Rightarrow> string option"

definition save_metadata :: "metadata \<Rightarrow> string \<Rightarrow> world \<Rightarrow> world" where
  "save_metadata m json_filename w =
     w\<lparr>downloads_dir := insert json_filename (downloads_dir w),
       sidecars := sidecars w @ [(json_filename, m)]\<rparr>"

text \<open>
  \<open>ECBPDFDownloader.process_publication\<close>; it returns no value when one of the two
  searches for a free name does not end. Both retrieval paths turn every exception into
  a failed result; the one step that raises is \<open>save_metadata\<close>, when the writing of the
  sidecar does, and the exception leaves the function.
\<close>

definition process_publication ::
    "environment \<Rightarrow> world \<Rightarrow> string \<times> string \<times> string \<Rightarrow> (bool outcome \<times> world) option"
  where
  "process_publication env w record =
     (case record of (date_text, title_text, url_text) \<Rightarrow>
        let base_filename = generate_filename date_text title_text 0;
            is_pdf = endswith (lower url_text) ''.pdf''
        in case check_duplicate_filename (downloads_dir w) base_filename ''pdf'' of
             None \<Rightarrow> None
           | Some pdf_filename \<Rightarrow>
               (case check_duplicate_filename (downloads_dir w) base_filename ''json'' of
                  None \<Rightarrow> None
                | Some json_filename \<Rightarrow>
                    let (success, creator_name) =
                          (if is_pdf
                           then (succeeded (download_pdf (primary_responses env)
                                              (fallback_responses env)), [])
                           else html_to_pdf (rendering env));
                        w1 = (if success \<or> leaves_file env
                              then w\<lparr>downloads_dir := insert pdf_filename (downloads_dir w)\<rparr>
                              else w)
                    in if success
                       then (case sidecar_write env of
                               Raised e \<Rightarrow> Some (Raised e, w1)
                             | Returned written \<Rightarrow>
                                 Some (Returned True,
                                   save_metadata
                                     (generate_metadata (clock_when_parsing_fails env)
                                        (clock_at_creation env) (strptime_at_nine env)
                                        date_text title_text url_text creator_name)
                                     json_filename w1))
                       else Some (Returned False, w1)))"

section \<open>The flat file (both files)\<close>

text \<open>
  \<open>ECBScraper.save_to_file\<close>: the text written, or \<open>None\<close> when the list is empty and
  no file is written.
\<close>

definition format_line :: "publication \<Rightarrow> string" where
  "format_line pub = pub_date pub @ '' | '' @ pub_title pub @ '' | '' @ pub_url pub"

definition save_to_file :: "publication list \<Rightarrow> string option" where
  "save_to_file publications =
     (if publications = [] then None
      else Some (join [CHR 0x0A] (map format_line publications)))"

text \<open>
  The lines of a file opened for reading in text mode: a carriage return, alone or before
  a line feed, is read as a line feed, and every line but possibly the last ends with
  one.
\<close>

fun file_lines :: "string \<Rightarrow> string \<Rightarrow> string list" where
  "file_lines line [] = (if line = [] then [] else [line])"
| "file_lines line (c # cs) =
     (if c = CHR 0x0A then (line @ [CHR 0x0A]) # file_lines [] cs
      else if c = CHR 0x0D then
        (case cs of
           [] \<Rightarrow> [line @ [CHR 0x0A]]
         | c' # cs' \<Rightarrow>
             if c' = CHR 0x0A then (line @ [CHR 0x0A]) # file_lines [] cs'
             else (line @ [CHR 0x0A]) # file_lines [] cs)
      else file_lines (line @ [c]) cs)"

text \<open>
  \<open>ECBPDFDownloader.read_publications_file\<close>, given the text of the file, or \<open>None\<close>
  when opening or decoding it raises, which the function answers with the empty list.
\<close>

fun read_loop :: "string list \<Rightarrow> (string \<times> string \<times> string) list
                  \<Rightarrow> (string \<times> string \<times> string) list" where
  "read_loop [] publications = publications"
| "read_loop (line0 # lines) publications =
     (let line = strip line0
      in if line \<noteq> [] \<and> str_in '' | '' line then
           (case split_max '' | '' 2 line of
              [date_text, title_text, url_text] \<Rightarrow>
                read_loop lines (publications @ [(date_text, title_text, url_text)])
            | _ \<Rightarrow> read_loop lines publications)
         else read_loop lines publications)"

definition read_publications_file :: "string option \<Rightarrow> (string \<times> string \<times> string) list" where
  "read_publications_file file =
     (case file of
        None \<Rightarrow> []
      | Some content \<Rightarrow> read_loop (file_lines [] content) [])"

text \<open>
  \<open>ECBPDFDownloader.process_publications_file\<close>: the records are processed one after
  the other, the \<open>i\<close>-th in its own environment, and counted as successful or failed; an
  exception that leaves \<open>process_publication\<close> is caught and counted as a failure. The
  result is the two counts of the run summary and the final state.
\<close>

fun batch_loop :: "(nat \<Rightarrow> environment) \<Rightarrow> nat \<Rightarrow> (string \<times> string \<times> string) list
                   \<Rightarrow> world \<Rightarrow> nat \<Rightarrow> nat \<Rightarrow> (nat \<times> nat \<times> world) option" where
  "batch_loop envs i [] w successful failed = Some (successful, failed, w)"
| "batch_loop envs i (record # records) w successful failed =
     (case process_publication (envs i) w record of
        None \<Rightarrow> None
      | Some (Returned success, w') \<Rightarrow>
          if success then batch_loop envs (Suc i) records w' (successful + 1) failed
          else batch_loop envs (Suc i) records w' successful (failed + 1)
      | Some (Raised e, w') \<Rightarrow> batch_loop envs (Suc i) records w' successful (failed + 1))"

definition process_publications_file ::
    "(nat \<Rightarrow> environment) \<Rightarrow> world \<Rightarrow> string option \<Rightarrow> (nat \<times> nat \<times> world) option" where
  "process_publications_file envs w file =
     (let publications = read_publications_file file
      in if publications = [] then Some (0, 0, w)
         else batch_loop envs 0 publications w 0 0)"

text \<open>
  The fields of a line, cut at every separator, and the record that a line with at
  least three fields gives: its first field, its second field, and the rest of the line
  after the second separator. A line with fewer fields gives none.
\<close>

definition fields :: "string \<Rightarrow> string list" where
  "fields line = split_max '' | '' (length line) line"

definition accepted :: "string \<Rightarrow> (string \<times> string \<times> string) list" where
  "accepted line =
     (let fs = fields line
      in if length fs \<ge> 3 then [(fs ! 0, fs ! 1, join '' | '' (drop 2 fs))] else [])"

text \<open>
  The records that the flat file keeps: the date has the ISO shape, the title followed by
  \<open>" |"\<close> has no separator in it (the title has none and does not end in \<open>" |"\<close>),
  neither title nor url has a line break, and the url is not empty and does not end in
  white space.
\<close>

definition line_break :: "char \<Rightarrow> bool" where
  "line_break c = (c = CHR 0x0A \<or> c = CHR 0x0D)"

definition triple :: "publication \<Rightarrow> string \<times> string \<times> string" where
  "triple pub = (pub_date pub, pub_title pub, pub_url pub)"

definition storable :: "publication \<Rightarrow> bool" where
  "storable pub =
     (iso_shaped (pub_date pub)
      \<and> \<not> str_in '' | '' (pub_title pub @ '' |'')
      \<and> \<not> list_ex line_break (pub_title pub)
      \<and> \<not> list_ex line_break (pub_url pub)
      \<and> pub_url pub \<noteq> [] \<and> \<not> is_space (last (pub_url pub)))"

text \<open>
  The records at the positions that are the first occurrence of their url, in order:
  position \<open>i\<close> is kept when no earlier position has the same url.
\<close>

definition first_occurrences :: "publication list \<Rightarrow> publication list" where
  "first_occurrences pubs =
     map (\<lambda>i. pubs ! i)
       (filter (\<lambda>i. list_all (\<lambda>j. pub_url (pubs ! j) \<noteq> pub_url (pubs ! i)) [0..<i])
          [0..<length pubs])"

text \<open>The publications of the emitted candidates of one \<open>dd\<close> element.\<close>

definition emitted_pubs :: "string \<Rightarrow> link list \<Rightarrow> publication list" where
  "emitted_pubs date_text links =
     map publication_of (map (Pair date_text) (filter (emitted_candidate date_text) links))"

text \<open>An operation, or a transport, that meets the same thing at every attempt.\<close>

definition always :: "'a \<Rightarrow> nat \<Rightarrow> 'a" where
  "always r k = r"

text \<open>The policy of \<open>get_page_height\<close> and \<open>scroll_to_bottom\<close>.\<close>

definition page_height_policy :: policy where
  "page_height_policy =
     \<lparr>stop_after_attempt = 3, wait = wait_exponential 1 1 5, retry_if = any_exception\<rparr>"

text \<open>
  How a retried operation ends in failure. An attempt fails retryably when it raises an
  exception that the predicate accepts, and finally when it raises one that the predicate
  rejects. The operation exhausts its budget when every attempt up to the last allowed
  one fails retryably; it is rejected at attempt \<open>k\<close> when that attempt fails finally
  after retryable failures of all the earlier ones. It gives up in either case.
\<close>

definition retryable_failure :: "policy \<Rightarrow> 'a outcome \<Rightarrow> bool" where
  "retryable_failure p out = (case out of Raised e \<Rightarrow> retry_if p e | Returned v \<Rightarrow> False)"

definition final_failure :: "policy \<Rightarrow> 'a outcome \<Rightarrow> bool" where
  "final_failure p out = (case out of Raised e \<Rightarrow> \<not> retry_if p e | Returned v \<Rightarrow> False)"

definition exhausted :: "policy \<Rightarrow> (nat \<Rightarrow> 'a outcome) \<Rightarrow> bool" where
  "exhausted p operation =
     list_all (\<lambda>k. retryable_failure p (operation k)) [1..<Suc (stop_after_attempt p)]"

definition rejected_at :: "policy \<Rightarrow> (nat \<Rightarrow> 'a outcome) \<Rightarrow> nat \<Rightarrow> bool" where
  "rejected_at p operation k =
     (final_failure p (operation k)
      \<and> list_all (\<lambda>j. retryable_failure p (operation j)) [1..<k])"

definition rejected :: "policy \<Rightarrow> (nat \<Rightarrow> 'a outcome) \<Rightarrow> bool" where
  "rejected p operation =
     list_ex (rejected_at p operation) [1..<Suc (stop_after_attempt p)]"

definition gives_up :: "policy \<Rightarrow> (nat \<Rightarrow> 'a outcome) \<Rightarrow> bool" where
  "gives_up p operation = (exhausted p operation \<or> rejected p operation)"

definition is_raised :: "'a outcome \<Rightarrow> bool" where
  "is_raised out = (case out of Raised e \<Rightarrow> True | Returned v \<Rightarrow> False)"

text \<open>
  The retrieval of a record as the specification words it: the direct fetch for a url
  that ends in \<open>.pdf\<close>, whatever the case of its letters, and the render path for any
  other url, with the creator that the render path extracts. A record is stored when its
  retrieval succeeded and the writing of its sidecar returned. The records of a batch
  are numbered from 0, in the order of the file.
\<close>

definition retrieval_succeeded :: "environment \<Rightarrow> string \<Rightarrow> bool" where
  "retrieval_succeeded env url_text =
     (if endswith (lower url_text) ''.pdf''
      then succeeded (download_pdf (primary_responses env) (fallback_responses env))
      else fst (html_to_pdf (rendering env)))"

definition extracted_creator :: "environment \<Rightarrow> string \<Rightarrow> string" where
  "extracted_creator env url_text =
     (if endswith (lower url_text) ''.pdf'' then [] else snd (html_to_pdf (rendering env)))"

definition stored :: "environment \<Rightarrow> string \<times> string \<times> string \<Rightarrow> bool" where
  "stored env record =
     (case record of (date_text, title_text, url_text) \<Rightarrow>
        retrieval_succeeded env url_text \<and> \<not> is_raised (sidecar_write env))"

definition numbered :: "nat \<Rightarrow> 'a list \<Rightarrow> (nat \<times> 'a) list" where
  "numbered i xs = zip [i ..< i + length xs] xs"

definition stored_count ::
    "(nat \<Rightarrow> environment) \<Rightarrow> nat \<Rightarrow> (string \<times> string \<times> string) list \<Rightarrow> nat" where
  "stored_count envs i records =
     length (filter (\<lambda>(k, record). stored (envs k) record) (numbered i records))"

text \<open>
  An environment for the examples: the primary transport answers 200 at every attempt,
  the rendering session cannot open a page, and the writing of the sidecar meets what is
  given.
\<close>

definition example_environment :: "unit outcome \<Rightarrow> environment" where
  "example_environment written =
     \<lparr>primary_responses = always (Status 200), fallback_responses = always (Status 404),
      rendering = \<lparr>new_page = Raised OtherException,
                   navigate_and_extract_creator = always (Returned []),
                   generate_pdf_from_page = always (Returned ()),
                   close_page = Returned ()\<rparr>,
      leaves_file = False, sidecar_write = written,
      clock_when_parsing_fails = ''2024-03-20T10:00:00+00:00'',
      clock_at_creation = ''2024-03-20T10:00:01+00:00'',
      strptime_at_nine = map_of [(''2024-03-15'', ''2024-03-15T09:00:00+00:00'')]\<rparr>"

section \<open>Properties of the string operations\<close>

lemma startswith_iff: "startswith s p \<longleftrightarrow> (\<exists>post. s = p @ post)"
  by (induction s p rule: startswith.induct) auto

lemma str_in_iff: "str_in sub s \<longleftrightarrow> (\<exists>pre post. s = pre @ sub @ post)"
proof (induction s)
  case Nil
  then show ?case by auto
next
  case (Cons c cs)
  show ?case
  proof
    assume "str_in sub (c # cs)"
    then consider "startswith (c # cs) sub" | "str_in sub cs" by auto
    then show "\<exists>pre post. c # cs = pre @ sub @ post"
    proof cases
      case 1
      then obtain post where "c # cs = sub @ post" by (auto simp: startswith_iff)
      then have "c # cs = [] @ sub @ post" by simp
      then show ?thesis by blast
    next
      case 2
      then obtain pre post where "cs = pre @ sub @ post" using Cons.IH by auto
      then have "c # cs = (c # pre) @ sub @ post" by simp
      then show ?thesis by blast
    qed
  next
    assume "\<exists>pre post. c # cs = pre @ sub @ post"
    then obtain pre post where eq: "c # cs = pre @ sub @ post" by auto
    show "str_in sub (c # cs)"
    proof (cases pre)
      case Nil
      with eq have "startswith (c # cs) sub" by (auto simp: startswith_iff)
      then show ?thesis by simp
    next
      case (Cons a pre')
      with eq have "cs = pre' @ sub @ post" by simp
      then have "str_in sub cs" using Cons.IH by auto
      then show ?thesis by simp
    qed
  qed
qed

lemma of_char_less_256: "(of_char c :: nat) < 256"
  by (cases c) simp

lemma lower_char_idem: "lower_char (lower_char c) = lower_char c"
  using of_char_less_256 [of c]
  by (auto simp: lower_char_def Let_def take_bit_eq_mod)

lemma lower_idem: "lower (lower s) = lower s"
  by (simp add: lower_def lower_char_idem)

lemma str_in_lower: "str_in k s \<Longrightarrow> str_in (lower k) (lower s)"
  unfolding str_in_iff lower_def by (metis map_append)

section \<open>Category classification\<close>

text \<open>
  C4. \<open>determine_category\<close> is the ordered rule list of the specification with the
  first matching rule deciding; it answers \<open>Report\<close> exactly when no rule matches; a url
  whose lower-cased form contains \<open>/mopo/\<close> is a monetary policy statement whatever the
  title; and the answer depends on title and url only through their lower-cased forms.
\<close>

theorem determine_category_rule_list:
  "determine_category title url = first_match category_rules title url
   \<and> (determine_category title url = ''Report''
        \<longleftrightarrow> \<not> list_ex (rule_matches title url) category_rules)
   \<and> (str_in ''/mopo/'' (lower url)
        \<longrightarrow> determine_category title url = ''Monetary policy statement'')
   \<and> (str_in ''/mopo/'' url
        \<longrightarrow> determine_category title url = ''Monetary policy statement'')
   \<and> (lower title' = lower title \<and> lower url' = lower url
        \<longrightarrow> determine_category title' url' = determine_category title url)"
proof -
  have a: "determine_category title url = first_match category_rules title url"
    by (simp add: determine_category_def category_rules_def Let_def)
  have b: "determine_category title url = ''Report''
        \<longleftrightarrow> \<not> list_ex (rule_matches title url) category_rules"
    by (simp add: determine_category_def category_rules_def Let_def)
  have c: "str_in ''/mopo/'' (lower url)
        \<longrightarrow> determine_category title url = ''Monetary policy statement''"
    by (simp add: determine_category_def Let_def)
  have "lower ''/mopo/'' = ''/mopo/''" by code_simp
  then have d: "str_in ''/mopo/'' url
        \<longrightarrow> determine_category title url = ''Monetary policy statement''"
    using c str_in_lower [of "''/mopo/''" url] by auto
  have e: "lower title' = lower title \<and> lower url' = lower url
        \<longrightarrow> determine_category title' url' = determine_category title url"
    by (simp add: determine_category_def)
  from a b c d e show ?thesis by blast
qed

theorem determine_category_rule_list_witness:
  "determine_category ''Annual accounts'' ''https://www.ecb.europa.eu/MOPO/x.pdf''
     = ''Monetary policy statement''
   \<and> determine_category ''ANNUAL ACCOUNTS'' ''https://www.ecb.europa.eu/mopo/x.pdf''
     = ''Monetary policy statement''
   \<and> determine_category ''Annual accounts'' ''https://www.ecb.europa.eu/x.pdf'' = ''Report''"
proof -
  let ?t = "''Annual accounts''" and ?u = "''https://www.ecb.europa.eu/MOPO/x.pdf''"
  let ?t' = "''ANNUAL ACCOUNTS''" and ?u' = "''https://www.ecb.europa.eu/mopo/x.pdf''"
  have h1: "str_in ''/mopo/'' (lower ?u)" by code_simp
  have h2: "lower ?t' = lower ?t \<and> lower ?u' = lower ?u" by code_simp
  have h3: "\<not> list_ex (rule_matches ''Annual accounts'' ''https://www.ecb.europa.eu/x.pdf'')
              category_rules" by code_simp
  from h1 determine_category_rule_list [of ?t ?u ?t' ?u']
  have 1: "determine_category ?t ?u = ''Monetary policy statement''" by blast
  from h2 determine_category_rule_list [of ?t ?u ?t' ?u'] 1
  have 2: "determine_category ?t' ?u' = ''Monetary policy statement''" by simp
  from h3 determine_category_rule_list [of ?t "''https://www.ecb.europa.eu/x.pdf''" ?t ?u]
  have 3: "determine_category ?t ''https://www.ecb.europa.eu/x.pdf'' = ''Report''" by blast
  from 1 2 3 show ?thesis by blast
qed

section \<open>Reading the flat file\<close>

lemma split_once_Some:
  "split_once sep s = Some (a, b) \<Longrightarrow> s = a @ sep @ b"
proof (induction s arbitrary: a)
  case Nil
  then show ?case by simp
next
  case (Cons c cs)
  show ?case
  proof (cases "startswith (c # cs) sep")
    case True
    then obtain post where p: "c # cs = sep @ post" by (auto simp: startswith_iff)
    from True Cons.prems have "a = []" "b = drop (length sep) (c # cs)" by auto
    with p show ?thesis by simp
  next
    case False
    with Cons.prems obtain a' where "split_once sep cs = Some (a', b)" "a = c # a'"
      by (auto split: option.splits)
    with Cons.IH show ?thesis by simp
  qed
qed

lemma split_once_None: "split_once sep s = None \<Longrightarrow> sep \<noteq> [] \<Longrightarrow> \<not> str_in sep s"
  by (induction s) (auto split: option.splits if_splits)

lemma split_once_shorter:
  "split_once sep s = Some (a, b) \<Longrightarrow> sep \<noteq> [] \<Longrightarrow> length b < length s"
  using split_once_Some [of sep s a b] by (cases sep) auto

lemma split_max_fuel:
  "sep \<noteq> [] \<Longrightarrow> length s \<le> n \<Longrightarrow> length s \<le> m \<Longrightarrow> split_max sep n s = split_max sep m s"
proof (induction n arbitrary: s m)
  case 0
  then show ?case by (cases m) auto
next
  case (Suc n)
  show ?case
  proof (cases m)
    case 0
    with Suc.prems show ?thesis by auto
  next
    case (Suc m')
    show ?thesis
    proof (cases "split_once sep s")
      case None
      then show ?thesis using Suc by simp
    next
      case (Some ab)
      obtain a b where ab: "ab = (a, b)" by (cases ab)
      from Some ab Suc.prems have lt: "length b < length s" by (auto dest: split_once_shorter)
      have "split_max sep n b = split_max sep m' b"
        using Suc.IH [of b m'] Suc.prems lt Suc by auto
      then show ?thesis using Some ab Suc by simp
    qed
  qed
qed

lemma split_max_enough:
  "sep \<noteq> [] \<Longrightarrow> length s \<le> n \<Longrightarrow> split_max sep n s = split_max sep (length s) s"
  by (rule split_max_fuel) auto

lemma join_Cons: "join sep (x # xs) = (if xs = [] then x else x @ sep @ join sep xs)"
  by (cases xs) auto

lemma join_split_max: "sep \<noteq> [] \<Longrightarrow> join sep (split_max sep n s) = s"
proof (induction n arbitrary: s)
  case 0
  then show ?case by simp
next
  case (Suc n)
  show ?case
  proof (cases "split_once sep s")
    case None
    then show ?thesis by simp
  next
    case (Some ab)
    obtain a b where ab: "ab = (a, b)" by (cases ab)
    have ne: "split_max sep n b \<noteq> []" by (cases n) (auto split: option.splits)
    from Some ab have "s = a @ sep @ b" by (auto dest: split_once_Some)
    then show ?thesis using Some ab Suc ne by (simp add: join_Cons)
  qed
qed

lemma split_max_nonempty: "split_max sep n s \<noteq> []"
  by (cases n) (auto split: option.splits)

lemma split_two_fields:
  assumes sep: "sep \<noteq> []"
  shows "split_max sep 2 s =
           (let fs = split_max sep (length s) s
            in if length fs \<ge> 3 then [fs ! 0, fs ! 1, join sep (drop 2 fs)] else fs)"
proof (cases "split_once sep s")
  case None
  then show ?thesis by (cases "length s") (auto simp: numeral_2_eq_2)
next
  case (Some ab)
  obtain a b where ab: "ab = (a, b)" by (cases ab)
  from Some ab sep have lt: "length b < length s" by (auto dest: split_once_shorter)
  then obtain m where m: "length s = Suc m" by (cases "length s") auto
  have all: "split_max sep (length s) s = a # split_max sep (length b) b"
    using Some ab m lt split_max_enough [OF sep, of b m] by simp
  show ?thesis
  proof (cases "split_once sep b")
    case None
    then have "split_max sep (length b) b = [b]" by (cases "length b") auto
    with all Some ab None show ?thesis by (simp add: numeral_2_eq_2)
  next
    case (Some cd)
    obtain c d where cd: "cd = (c, d)" by (cases cd)
    from Some cd sep have lt2: "length d < length b" by (auto dest: split_once_shorter)
    then obtain k where k: "length b = Suc k" by (cases "length b") auto
    have allb: "split_max sep (length b) b = c # split_max sep (length d) d"
      using Some cd k lt2 split_max_enough [OF sep, of d k] by simp
    have "join sep (split_max sep (length d) d) = d" by (rule join_split_max [OF sep])
    then show ?thesis
      using all allb \<open>split_once sep s = Some ab\<close> ab Some cd split_max_nonempty [of sep "length d" d]
      by (cases "split_max sep (length d) d") (auto simp: numeral_2_eq_2 Let_def)
  qed
qed

lemma split_once_str_in: "split_once sep s = Some (a, b) \<Longrightarrow> str_in sep s"
  using split_once_Some [of sep s a b] by (auto simp: str_in_iff)

lemma fields_without_separator: "\<not> str_in '' | '' line \<Longrightarrow> fields line = [line]"
proof -
  assume n: "\<not> str_in '' | '' line"
  have "split_once '' | '' line = None"
  proof (cases "split_once '' | '' line")
    case None
    then show ?thesis .
  next
    case (Some ab)
    then show ?thesis using n split_once_str_in [of "'' | ''" line "fst ab" "snd ab"] by simp
  qed
  then show ?thesis by (cases "length line") (auto simp: fields_def)
qed

lemma read_line_accepted:
  "(if line \<noteq> [] \<and> str_in '' | '' line then
           (case split_max '' | '' 2 line of
              [date_text, title_text, url_text] \<Rightarrow> [(date_text, title_text, url_text)]
            | _ \<Rightarrow> [])
         else []) = accepted line"
proof (cases "line \<noteq> [] \<and> str_in '' | '' line")
  case True
  have two: "split_max '' | '' 2 line =
           (let fs = fields line
            in if length fs \<ge> 3 then [fs ! 0, fs ! 1, join '' | '' (drop 2 fs)] else fs)"
    unfolding fields_def by (rule split_two_fields) simp
  show ?thesis
  proof (cases "length (fields line) \<ge> 3")
    case True
    with two \<open>line \<noteq> [] \<and> str_in '' | '' line\<close> show ?thesis
      by (simp add: accepted_def Let_def)
  next
    case False
    then have "split_max '' | '' 2 line = fields line" using two by (simp add: Let_def)
    moreover have "length (fields line) < 3" using False by simp
    ultimately show ?thesis using False
      by (auto simp: accepted_def Let_def split: list.splits)
  qed
next
  case False
  then consider "line = []" | "\<not> str_in '' | '' line" by auto
  then have "fields line = [line]"
  proof cases
    case 1
    then show ?thesis by (simp add: fields_def)
  next
    case 2
    then show ?thesis by (rule fields_without_separator)
  qed
  with False show ?thesis by (auto simp: accepted_def Let_def)
qed

lemma read_loop_accepted:
  "read_loop lines publications = publications @ concat (map (\<lambda>l. accepted (strip l)) lines)"
proof (induction lines arbitrary: publications)
  case Nil
  then show ?case by simp
next
  case (Cons l lines)
  have step: "read_loop (l # lines) publications =
        read_loop lines (publications @
          (if strip l \<noteq> [] \<and> str_in '' | '' (strip l) then
           (case split_max '' | '' 2 (strip l) of
              [date_text, title_text, url_text] \<Rightarrow> [(date_text, title_text, url_text)]
            | _ \<Rightarrow> [])
         else []))"
    by (simp add: Let_def split: list.splits)
  show ?case unfolding step read_line_accepted by (simp add: Cons.IH)
qed

text \<open>
  C8, as amended. \<open>read_publications_file\<close> accepts a line exactly when the stripped
  line has at least three fields separated by \<open>" | "\<close>; the record is the first field,
  the second field and the rest of the line after the second separator, further
  separators included. Every other line is skipped, and a file that cannot be read
  gives the empty list.
\<close>

theorem read_publications_file_accepts:
  "read_publications_file (Some content)
     = concat (map (\<lambda>l. accepted (strip l)) (file_lines [] content))
   \<and> read_publications_file None = []
   \<and> (accepted line \<noteq> [] \<longleftrightarrow> length (fields line) \<ge> 3)"
  by (simp add: read_publications_file_def read_loop_accepted accepted_def Let_def)

theorem read_publications_file_accepts_witness:
  "read_publications_file (Some ''d | t | u | v'') = [(''d'', ''t'', ''u | v'')]
   \<and> accepted ''d | t'' = []"
proof -
  have 1: "concat (map (\<lambda>l. accepted (strip l)) (file_lines [] ''d | t | u | v''))
             = [(''d'', ''t'', ''u | v'')]"
    by code_simp
  have 2: "\<not> length (fields ''d | t'') \<ge> 3" by code_simp
  from 1 2 read_publications_file_accepts [of "''d | t | u | v''" "''d | t''"]
  show ?thesis by simp
qed

text \<open>
  C8 as stated fails: a line of four fields is not skipped; it is accepted, its last two
  fields forming the url.
\<close>

theorem four_fields_counterexample:
  "length (fields ''a | b | c | d'') = 4
   \<and> read_publications_file (Some ''a | b | c | d'') = [(''a'', ''b'', ''c | d'')]"
  by code_simp

section \<open>Round trip through the flat file\<close>

lemma startswith_append_long:
  "startswith (a @ b) sep \<Longrightarrow> length sep \<le> length a \<Longrightarrow> startswith a sep"
  by (induction a sep rule: startswith.induct) auto

lemma split_once_first:
  "sep \<noteq> [] \<Longrightarrow> \<not> str_in sep (a @ butlast sep) \<Longrightarrow> split_once sep (a @ sep @ b) = Some (a, b)"
proof (induction a)
  case Nil
  then obtain c cs where "sep = c # cs" by (cases sep) auto
  then have "startswith (sep @ b) sep" "sep @ b = c # cs @ b"
    by (auto simp: startswith_iff)
  then show ?case using \<open>sep = c # cs\<close> by simp
next
  case (Cons x a)
  from Cons.prems(1) obtain bs l where sep: "sep = bs @ [l]" by (cases sep rule: rev_cases) auto
  have no: "\<not> startswith ((x # a) @ sep @ b) sep"
  proof
    assume "startswith ((x # a) @ sep @ b) sep"
    then have "startswith (((x # a) @ bs) @ (l # b)) sep" using sep by simp
    moreover have "length sep \<le> length ((x # a) @ bs)" using sep by simp
    ultimately have "startswith ((x # a) @ bs) sep"
      by (rule startswith_append_long)
    then obtain post where "(x # a) @ bs = [] @ sep @ post"
      by (auto simp: startswith_iff)
    then have "str_in sep ((x # a) @ bs)" unfolding str_in_iff by blast
    with Cons.prems sep show False by simp
  qed
  have "\<not> str_in sep (a @ butlast sep)" using Cons.prems by auto
  with Cons.IH Cons.prems have "split_once sep (a @ sep @ b) = Some (a, b)" by simp
  with no show ?case by simp
qed

lemma no_pipe_no_separator:
  "CHR ''|'' \<notin> set d \<Longrightarrow> \<not> str_in '' | '' (d @ '' |'')"
proof (induction d)
  case Nil
  then show ?case by simp
next
  case (Cons c d)
  then show ?case by (cases d) auto
qed

lemma file_lines_append:
  "\<not> list_ex line_break l \<Longrightarrow> file_lines acc (l @ rest) = file_lines (acc @ l) rest"
  by (induction l arbitrary: acc) (auto simp: line_break_def)

lemma file_lines_join:
  "\<forall>l\<in>set ls. l \<noteq> [] \<and> \<not> list_ex line_break l \<Longrightarrow> ls \<noteq> [] \<Longrightarrow>
     file_lines [] (join [CHR 0x0A] ls) = map (\<lambda>l. l @ [CHR 0x0A]) (butlast ls) @ [last ls]"
proof (induction ls)
  case Nil
  then show ?case by simp
next
  case (Cons l ls)
  show ?case
  proof (cases ls)
    case Nil
    with Cons.prems file_lines_append [of l "[]" "[]"] show ?thesis by simp
  next
    case (Cons l' ls')
    have "join [CHR 0x0A] (l # ls) = l @ (CHR 0x0A # join [CHR 0x0A] ls)"
      using Cons by simp
    then have "file_lines [] (join [CHR 0x0A] (l # ls))
        = file_lines l (CHR 0x0A # join [CHR 0x0A] ls)"
      using Cons.prems file_lines_append [of l "[]"] by simp
    also have "\<dots> = (l @ [CHR 0x0A]) # file_lines [] (join [CHR 0x0A] ls)" by simp
    finally show ?thesis using Cons.IH Cons.prems Cons by simp
  qed
qed

lemma strip_line:
  "l \<noteq> [] \<Longrightarrow> \<not> is_space (hd l) \<Longrightarrow> \<not> is_space (last l) \<Longrightarrow>
     strip l = l \<and> strip (l @ [CHR 0x0A]) = l"
proof -
  assume a: "l \<noteq> []" "\<not> is_space (hd l)" "\<not> is_space (last l)"
  have sp: "is_space (CHR 0x0A)" by code_simp
  from a have f: "dropWhile is_space l = l" "dropWhile is_space (l @ [CHR 0x0A]) = l @ [CHR 0x0A]"
    by (cases l; simp)+
  from a have b: "dropWhile is_space (rev l) = rev l"
    by (cases "rev l") (auto simp: last_rev [symmetric] simp del: last_rev)
  show ?thesis using f b sp by (simp add: strip_def)
qed


lemma digit_facts:
  "is_digit c \<Longrightarrow> \<not> is_space c \<and> c \<noteq> CHR ''|'' \<and> \<not> line_break c"
  by (auto simp: is_digit_def is_space_def line_break_def Let_def)

lemma length_ten:
  "length d = 10 \<Longrightarrow> \<exists>c0 c1 c2 c3 c4 c5 c6 c7 c8 c9. d = [c0, c1, c2, c3, c4, c5, c6, c7, c8, c9]"
  by (auto simp: eval_nat_numeral length_Suc_conv)

lemma iso_shaped_chars:
  assumes "iso_shaped d"
  shows "d \<noteq> [] \<and> \<not> is_space (hd d) \<and> CHR ''|'' \<notin> set d \<and> \<not> list_ex line_break d"
proof -
  from assms have "length d = 10" by (simp add: iso_shaped_def)
  from length_ten [OF this] obtain c0 c1 c2 c3 c4 c5 c6 c7 c8 c9
    where d: "d = [c0, c1, c2, c3, c4, c5, c6, c7, c8, c9]"
    by (elim exE)
  have dash: "\<not> line_break (CHR ''-'')" by (simp add: line_break_def)
  from assms d have "is_digit c0" "is_digit c1" "is_digit c2" "is_digit c3" "c4 = CHR ''-''"
    "is_digit c5" "is_digit c6" "c7 = CHR ''-''" "is_digit c8" "is_digit c9"
    by (simp_all add: iso_shaped_def)
  then show ?thesis using d dash digit_facts by auto
qed

lemma format_line_facts:
  assumes "storable pub"
  shows "format_line pub \<noteq> []" and "\<not> is_space (hd (format_line pub))"
    and "\<not> is_space (last (format_line pub))" and "\<not> list_ex line_break (format_line pub)"
    and "accepted (format_line pub) = [triple pub]"
proof -
  let ?d = "pub_date pub" and ?t = "pub_title pub" and ?u = "pub_url pub"
  from assms have iso: "iso_shaped ?d" and t: "\<not> str_in '' | '' (?t @ '' |'')"
    and tb: "\<not> list_ex line_break ?t" and ub: "\<not> list_ex line_break ?u"
    and u: "?u \<noteq> []" "\<not> is_space (last ?u)"
    by (simp_all add: storable_def)
  note dc = iso_shaped_chars [OF iso]
  show "format_line pub \<noteq> []" using dc by (simp add: format_line_def)
  show "\<not> is_space (hd (format_line pub))" using dc by (simp add: format_line_def)
  show "\<not> is_space (last (format_line pub))" using u by (simp add: format_line_def)
  have sepb: "\<not> list_ex line_break '' | ''" by (simp add: line_break_def)
  show "\<not> list_ex line_break (format_line pub)"
    using dc tb ub sepb by (auto simp: format_line_def list_ex_iff)
  have d: "\<not> str_in '' | '' (?d @ butlast '' | '')"
    using dc no_pipe_no_separator [of ?d] by simp
  have t': "\<not> str_in '' | '' (?t @ butlast '' | '')" using t by simp
  have 1: "split_once '' | '' (?d @ '' | '' @ (?t @ '' | '' @ ?u)) = Some (?d, ?t @ '' | '' @ ?u)"
    by (rule split_once_first [OF _ d]) simp
  have 2: "split_once '' | '' (?t @ '' | '' @ ?u) = Some (?t, ?u)"
    by (rule split_once_first [OF _ t']) simp
  have l: "format_line pub = ?d @ '' | '' @ (?t @ '' | '' @ ?u)" by (simp add: format_line_def)
  have sp: "split_max '' | '' 2 (format_line pub) = [?d, ?t, ?u]"
    unfolding l using 1 2 by (simp add: numeral_2_eq_2)
  have "format_line pub = ?d @ '' | '' @ (?t @ '' | '' @ ?u)" by (rule l)
  then have "str_in '' | '' (format_line pub)" unfolding str_in_iff by blast
  with sp \<open>format_line pub \<noteq> []\<close> read_line_accepted [of "format_line pub", symmetric]
  show "accepted (format_line pub) = [triple pub]" by (simp add: triple_def)
qed

text \<open>
  C10, as amended. For every publication list whose dates are ISO strings, whose titles
  contain no \<open>" | "\<close>, do not end in \<open>" |"\<close> and have no line break, and whose urls are
  not empty, have no line break and do not end in white space, writing the list with
  \<open>save_to_file\<close> and reading the text with \<open>read_publications_file\<close> gives the same
  triples in the same order, also when a url contains \<open>" | "\<close>. The empty list writes no
  file and reads back as the empty list.
\<close>

theorem flat_file_round_trip:
  assumes "list_all storable publications"
  shows "read_publications_file (save_to_file publications) = map triple publications"
proof (cases "publications = []")
  case True
  then show ?thesis by (simp add: save_to_file_def read_publications_file_def)
next
  case False
  let ?ls = "map format_line publications"
  have st: "\<And>p. p \<in> set publications \<Longrightarrow> storable p"
    using assms by (simp add: list_all_iff)
  have ne: "?ls \<noteq> []" using False by simp
  have ok: "\<forall>l\<in>set ?ls. l \<noteq> [] \<and> \<not> list_ex line_break l"
    using st format_line_facts(1,4) by auto
  have lines: "file_lines [] (join [CHR 0x0A] ?ls)
                 = map (\<lambda>l. l @ [CHR 0x0A]) (butlast ?ls) @ [last ?ls]"
    by (rule file_lines_join [OF ok ne])
  have str: "\<And>l. l \<in> set ?ls \<Longrightarrow> strip l = l \<and> strip (l @ [CHR 0x0A]) = l"
    using st format_line_facts(1,2,3) strip_line by auto
  have "map (\<lambda>l. accepted (strip l)) (map (\<lambda>l. l @ [CHR 0x0A]) (butlast ?ls))
          = map accepted (butlast ?ls)"
    using str by (auto dest: in_set_butlastD)
  moreover have "accepted (strip (last ?ls)) = accepted (last ?ls)"
    using str ne last_in_set [OF ne] by auto
  ultimately have "map (\<lambda>l. accepted (strip l)) (file_lines [] (join [CHR 0x0A] ?ls))
          = map accepted (butlast ?ls @ [last ?ls])"
    unfolding lines by simp
  also have "\<dots> = map accepted ?ls" using ne by simp
  also have "\<dots> = map (\<lambda>p. [triple p]) publications"
    using st format_line_facts(5) by simp
  finally have "concat (map (\<lambda>l. accepted (strip l)) (file_lines [] (join [CHR 0x0A] ?ls)))
                  = map triple publications"
    by (simp add: concat_map_singleton)
  then show ?thesis using False
    by (simp add: save_to_file_def read_publications_file_def read_loop_accepted)
qed

theorem flat_file_round_trip_witness:
  "read_publications_file
     (save_to_file
        [\<lparr>pub_date = ''2024-05-01'', pub_title = ''ECB publishes report'',
          pub_url = ''https://example.org/a | b.pdf'', original_date_text = ''1 May 2024''\<rparr>,
         \<lparr>pub_date = ''2024-04-30'', pub_title = ''Notes'',
          pub_url = ''https://example.org/n'', original_date_text = ''30 April 2024''\<rparr>])
   = [(''2024-05-01'', ''ECB publishes report'', ''https://example.org/a | b.pdf''),
      (''2024-04-30'', ''Notes'', ''https://example.org/n'')]"
proof -
  let ?ps = "[\<lparr>pub_date = ''2024-05-01'', pub_title = ''ECB publishes report'',
          pub_url = ''https://example.org/a | b.pdf'', original_date_text = ''1 May 2024''\<rparr>,
         \<lparr>pub_date = ''2024-04-30'', pub_title = ''Notes'',
          pub_url = ''https://example.org/n'', original_date_text = ''30 April 2024''\<rparr>]"
  have "list_all storable ?ps" by code_simp
  from flat_file_round_trip [OF this] show ?thesis by (simp add: triple_def)
qed

text \<open>
  C10 as stated fails: a title with a line feed inside, which the stripping of the link
  text leaves in place, satisfies the conditions of the claim, and the record is lost
  on the way, its line being cut in two.
\<close>

theorem line_break_in_title_counterexample:
  "iso_shaped ''2024-01-01''
   \<and> \<not> str_in '' | '' (''Annual'' @ [CHR 0x0A] @ ''report'')
   \<and> read_publications_file
        (save_to_file
           [\<lparr>pub_date = ''2024-01-01'', pub_title = ''Annual'' @ [CHR 0x0A] @ ''report'',
             pub_url = ''https://example.org/x'', original_date_text = ''1 January 2024''\<rparr>])
      = []"
  by code_simp

section \<open>Dedup and ranking\<close>

lemma dedup_loop_index:
  "dedup_loop pubs unique_pubs seen =
     unique_pubs @ map (\<lambda>i. pubs ! i)
       (filter (\<lambda>i. pub_url (pubs ! i) \<notin> seen \<union> pub_url ` set (take i pubs))
          [0..<length pubs])"
proof (induction pubs arbitrary: unique_pubs seen)
  case Nil
  then show ?case by simp
next
  case (Cons p ps)
  have upt: "[0..<length (p # ps)] = 0 # map Suc [0..<length ps]"
    by (simp add: upt_conv_Cons map_Suc_upt del: upt_Suc)
  have tail: "map (\<lambda>i. (p # ps) ! i)
       (filter (\<lambda>i. pub_url ((p # ps) ! i) \<notin> seen \<union> pub_url ` set (take i (p # ps)))
          (map Suc [0..<length ps]))
     = map (\<lambda>i. ps ! i)
       (filter (\<lambda>i. pub_url (ps ! i) \<notin> insert (pub_url p) seen \<union> pub_url ` set (take i ps))
          [0..<length ps])"
    by (simp add: filter_map comp_def conj_ac)
  show ?case
  proof (cases "pub_url p \<in> seen")
    case True
    have "filter (\<lambda>i. pub_url (ps ! i) \<notin> insert (pub_url p) seen \<union> pub_url ` set (take i ps))
            [0..<length ps]
        = filter (\<lambda>i. pub_url (ps ! i) \<notin> seen \<union> pub_url ` set (take i ps)) [0..<length ps]"
      using True by (simp add: insert_absorb)
    with True show ?thesis unfolding upt using tail Cons.IH [of unique_pubs seen] by simp
  next
    case False
    then show ?thesis unfolding upt
      using tail Cons.IH [of "unique_pubs @ [p]" "insert (pub_url p) seen"] by simp
  qed
qed

lemma dedup_loop_first_occurrences: "dedup_loop pubs [] {} = first_occurrences pubs"
proof -
  have "\<And>i. i < length pubs \<Longrightarrow>
          (pub_url (pubs ! i) \<notin> pub_url ` set (take i pubs))
          = list_all (\<lambda>j. pub_url (pubs ! j) \<noteq> pub_url (pubs ! i)) [0..<i]"
  proof -
    fix i assume i: "i < length pubs"
    then have "set (take i pubs) = (\<lambda>j. pubs ! j) ` {0..<i}"
      using nth_image [of i pubs] by simp
    then have "pub_url ` set (take i pubs) = (\<lambda>j. pub_url (pubs ! j)) ` {0..<i}"
      by (simp add: image_image)
    then show "(pub_url (pubs ! i) \<notin> pub_url ` set (take i pubs))
          = list_all (\<lambda>j. pub_url (pubs ! j) \<noteq> pub_url (pubs ! i)) [0..<i]"
      by (simp add: list_all_iff image_iff) metis
  qed
  then have "filter (\<lambda>i. pub_url (pubs ! i) \<notin> {} \<union> pub_url ` set (take i pubs)) [0..<length pubs]
      = filter (\<lambda>i. list_all (\<lambda>j. pub_url (pubs ! j) \<noteq> pub_url (pubs ! i)) [0..<i])
          [0..<length pubs]"
    by (intro filter_cong) auto
  then show ?thesis by (simp add: dedup_loop_index first_occurrences_def)
qed

lemma sort_reverse_mset: "mset (sort_reverse f xs) = mset xs"
  by (simp add: sort_reverse_def)

lemma sort_reverse_sorted: "sorted_wrt (\<lambda>a b. f a \<ge> f b) (sort_reverse f xs)"
proof -
  have "sorted (map f (sort_key f (rev xs)))" by simp
  then have "sorted_wrt (\<lambda>a b. f a \<le> f b) (sort_key f (rev xs))"
    by (simp add: sorted_map)
  then show ?thesis by (simp add: sort_reverse_def sorted_wrt_rev)
qed

lemma sort_reverse_stable:
  "filter (\<lambda>y. f y = k) (sort_reverse f xs) = filter (\<lambda>y. f y = k) xs"
  by (simp add: sort_reverse_def rev_filter [symmetric] sort_key_stable)

text \<open>
  C2. The dedup step keeps exactly the first occurrence of each url, in extraction
  order; the ranking is a permutation of the kept records, ordered by date
  non-increasing; and for every date the records of that date stand in the ranking in
  their extraction order, so the sort is stable and has no secondary key.
\<close>

theorem dedup_and_rank_first_stable:
  "dedup_loop publications [] {} = first_occurrences publications
   \<and> mset (dedup_and_rank publications) = mset (first_occurrences publications)
   \<and> sorted_wrt (\<lambda>a b. pub_date a \<ge> pub_date b) (dedup_and_rank publications)
   \<and> (\<forall>d. filter (\<lambda>p. pub_date p = d) (dedup_and_rank publications)
            = filter (\<lambda>p. pub_date p = d) (first_occurrences publications))"
  by (simp add: dedup_and_rank_def dedup_loop_first_occurrences sort_reverse_mset
        sort_reverse_sorted sort_reverse_stable)


text \<open>
  The urls \<open>[A, B, A, C]\<close> with the dates of January, March, February and March: the
  second \<open>A\<close> is dropped, and \<open>B\<close> stays before \<open>C\<close>, which has the same date.
\<close>

lemma dedup_and_rank_example:
  "map pub_url
     (dedup_and_rank
        [\<lparr>pub_date = ''2024-01-01'', pub_title = ''a'', pub_url = ''A'', original_date_text = []\<rparr>,
         \<lparr>pub_date = ''2024-03-01'', pub_title = ''b'', pub_url = ''B'', original_date_text = []\<rparr>,
         \<lparr>pub_date = ''2024-02-01'', pub_title = ''c'', pub_url = ''A'', original_date_text = []\<rparr>,
         \<lparr>pub_date = ''2024-03-01'', pub_title = ''d'', pub_url = ''C'', original_date_text = []\<rparr>])
   = [''B'', ''C'', ''A'']"
  by code_simp

section \<open>The extraction cap\<close>

lemma take_chain: "take n xs @ take (n - length (take n xs)) ys = take n (xs @ ys)"
  by (cases "length xs \<le> n") auto

lemma cap_chain:
  "(pubs @ take (m - length pubs) xs) @ take (m - length (pubs @ take (m - length pubs) xs)) ys
     = pubs @ take (m - length pubs) (xs @ ys)"
  using take_chain [of "m - length pubs" xs ys] by simp

lemma absolute_url_empty: "absolute_url h = [] \<longleftrightarrow> h = []"
  by (cases h) (auto simp: absolute_url_def)

lemma link_loop_take:
  "link_loop m date_text links pubs = pubs @ take (m - length pubs) (emitted_pubs date_text links)"
proof (induction links arbitrary: pubs)
  case Nil
  then show ?case by (simp add: emitted_pubs_def)
next
  case (Cons l links)
  show ?case
  proof (cases "length pubs \<ge> m")
    case True
    then show ?thesis by simp
  next
    case False
    then obtain k where k: "m - length pubs = Suc k" by (cases "m - length pubs") auto
    then have k': "m - Suc (length pubs) = k" by arith
    show ?thesis
    proof (cases "emitted_candidate date_text l")
      case True
      then obtain d where d: "parse_date date_text = Some d"
        by (auto simp: emitted_candidate_def claimed_candidate_def)
      from True have e: "emitted_pubs date_text (l # links)
          = \<lparr>pub_date = d, pub_title = replace_pipes (link_text l),
               pub_url = absolute_url (href l), original_date_text = date_text\<rparr>
            # emitted_pubs date_text links"
        using d by (simp add: emitted_pubs_def publication_of_def)
      from True False d k k' show ?thesis
        unfolding e
        by (simp add: Cons.IH emitted_candidate_def claimed_candidate_def absolute_url_empty)
    next
      case False
      then have e: "emitted_pubs date_text (l # links) = emitted_pubs date_text links"
        by (simp add: emitted_pubs_def)
      from False \<open>\<not> length pubs \<ge> m\<close> show ?thesis
        unfolding e
        by (auto simp: Cons.IH emitted_candidate_def claimed_candidate_def absolute_url_empty
              split: option.splits)
    qed
  qed
qed

lemma dt_loop_take:
  "dt_loop m dds i dts pubs =
     pubs @ take (m - length pubs)
              (concat (map (\<lambda>(date_text, links). emitted_pubs date_text links)
                         (zip dts (drop i dds))))"
proof (induction dts arbitrary: i pubs)
  case Nil
  then show ?case by simp
next
  case (Cons date_text dts)
  let ?rest = "\<lambda>i. concat (map (\<lambda>(date_text, links). emitted_pubs date_text links)
                         (zip dts (drop i dds)))"
  show ?case
  proof (cases "length pubs \<ge> m")
    case True
    then show ?thesis by simp
  next
    case False
    show ?thesis
    proof (cases "i < length dds")
      case True
      then have dr: "drop i dds = dds ! i # drop (Suc i) dds"
        by (simp add: Cons_nth_drop_Suc)
      let ?a = "emitted_pubs date_text (dds ! i)"
      have "dt_loop m dds i (date_text # dts) pubs
              = dt_loop m dds (Suc i) dts (link_loop m date_text (dds ! i) pubs)"
        using True False by simp
      also have "\<dots> = (pubs @ take (m - length pubs) ?a)
                @ take (m - length (pubs @ take (m - length pubs) ?a)) (?rest (Suc i))"
        by (simp only: Cons.IH link_loop_take)
      also have "\<dots> = pubs @ take (m - length pubs) (?a @ ?rest (Suc i))"
        by (rule cap_chain)
      finally show ?thesis unfolding dr by simp
    next
      case False
      then show ?thesis using \<open>\<not> length pubs \<ge> m\<close> by (simp add: Cons.IH)
    qed
  qed
qed

lemma dl_loop_take:
  "dl_loop m dls pubs =
     pubs @ take (m - length pubs)
              (concat (map (\<lambda>d. concat (map (\<lambda>(date_text, links). emitted_pubs date_text links)
                                           (zip (dt_elements d) (dd_elements d)))) dls))"
proof (induction dls arbitrary: pubs)
  case Nil
  then show ?case by simp
next
  case (Cons d dls)
  let ?a = "concat (map (\<lambda>(date_text, links). emitted_pubs date_text links)
                      (zip (dt_elements d) (dd_elements d)))"
  let ?rest = "concat (map (\<lambda>d. concat (map (\<lambda>(date_text, links). emitted_pubs date_text links)
                                           (zip (dt_elements d) (dd_elements d)))) dls)"
  show ?case
  proof (cases "length pubs \<ge> m")
    case True
    then show ?thesis by simp
  next
    case False
    then have "dl_loop m (d # dls) pubs
              = dl_loop m dls (dt_loop m (dd_elements d) 0 (dt_elements d) pubs)"
      by simp
    also have "\<dots> = (pubs @ take (m - length pubs) ?a)
                @ take (m - length (pubs @ take (m - length pubs) ?a)) ?rest"
      by (simp only: Cons.IH dt_loop_take drop_0)
    also have "\<dots> = pubs @ take (m - length pubs) (?a @ ?rest)"
      by (rule cap_chain)
    finally show ?thesis by simp
  qed
qed

lemma emitted_publications:
  "map publication_of (candidate_links emitted_candidate dls)
     = concat (map (\<lambda>d. concat (map (\<lambda>(date_text, links). emitted_pubs date_text links)
                                   (zip (dt_elements d) (dd_elements d)))) dls)"
  by (simp add: candidate_links_def emitted_pubs_def map_concat comp_def case_prod_unfold)

lemma extract_take:
  "extract_publications_from_html m (Some dls)
     = take m (map publication_of (candidate_links emitted_candidate dls))"
  by (simp add: extract_publications_from_html_def dl_loop_take emitted_publications)

text \<open>
  C1, as amended. The candidate links are the links with a non-empty href inside the
  container, outside an accordion region, with a non-empty title and a heading date that
  parses, each \<open>dd\<close> being paired with the \<open>dt\<close> of the same index. The function returns
  the first \<open>max_publications\<close> candidates in document order, hence exactly
  \<open>max_publications\<close> publications when there are more candidates than that, and never
  more; a missing container gives the empty list. The limit is enforced eagerly: each of
  the three loops returns its list unchanged once the limit is reached, and keeps a list
  within the limit within the limit.
\<close>

theorem extraction_cap:
  "extract_publications_from_html m (Some dls)
     = take m (map publication_of (candidate_links emitted_candidate dls))
   \<and> extract_publications_from_html m None = []
   \<and> (length (candidate_links emitted_candidate dls) > m
        \<longrightarrow> length (extract_publications_from_html m (Some dls)) = m)
   \<and> length (extract_publications_from_html m html) \<le> m
   \<and> (m \<le> length pubs
        \<longrightarrow> link_loop m date_text links pubs = pubs \<and> dt_loop m dds i dts pubs = pubs
            \<and> dl_loop m dls' pubs = pubs)
   \<and> (length pubs \<le> m
        \<longrightarrow> length (link_loop m date_text links pubs) \<le> m
            \<and> length (dt_loop m dds i dts pubs) \<le> m
            \<and> length (dl_loop m dls' pubs) \<le> m)"
proof -
  have a: "extract_publications_from_html m None = []"
    by (simp add: extract_publications_from_html_def)
  have b: "length (candidate_links emitted_candidate dls) > m
        \<longrightarrow> length (extract_publications_from_html m (Some dls)) = m"
    by (simp add: extract_take)
  have c: "length (extract_publications_from_html m html) \<le> m"
    by (cases html) (simp_all add: extract_take a)
  have d: "m \<le> length pubs
        \<longrightarrow> link_loop m date_text links pubs = pubs \<and> dt_loop m dds i dts pubs = pubs
            \<and> dl_loop m dls' pubs = pubs"
    by (simp add: link_loop_take dt_loop_take dl_loop_take)
  have e: "length pubs \<le> m \<longrightarrow> length (link_loop m date_text links pubs) \<le> m"
    by (auto simp: link_loop_take)
  have f: "length pubs \<le> m \<longrightarrow> length (dt_loop m dds i dts pubs) \<le> m"
    by (auto simp: dt_loop_take)
  have g: "length pubs \<le> m \<longrightarrow> length (dl_loop m dls' pubs) \<le> m"
    by (auto simp: dl_loop_take)
  from extract_take a b c d e f g show ?thesis by blast
qed

theorem extraction_cap_witness:
  "extract_publications_from_html 1
     (Some [\<lparr>dt_elements = [''1 March 2024'', ''2024-02-29''],
             dd_elements = [[\<lparr>link_text = ''A'', href = ''/a'', in_accordion = False\<rparr>,
                             \<lparr>link_text = ''B'', href = ''/b'', in_accordion = True\<rparr>],
                            [\<lparr>link_text = ''C'', href = ''https://x.org/c'',
                              in_accordion = False\<rparr>]]\<rparr>])
   = [\<lparr>pub_date = ''2024-03-01'', pub_title = ''A'',
       pub_url = ''https://www.ecb.europa.eu/a'', original_date_text = ''1 March 2024''\<rparr>]
   \<and> link_loop 1 ''2024-02-29''
         [\<lparr>link_text = ''C'', href = ''https://x.org/c'', in_accordion = False\<rparr>]
         [\<lparr>pub_date = ''2024-03-01'', pub_title = ''A'',
           pub_url = ''https://www.ecb.europa.eu/a'', original_date_text = ''1 March 2024''\<rparr>]
       = [\<lparr>pub_date = ''2024-03-01'', pub_title = ''A'',
           pub_url = ''https://www.ecb.europa.eu/a'', original_date_text = ''1 March 2024''\<rparr>]"
proof -
  let ?dls = "[\<lparr>dt_elements = [''1 March 2024'', ''2024-02-29''],
             dd_elements = [[\<lparr>link_text = ''A'', href = ''/a'', in_accordion = False\<rparr>,
                             \<lparr>link_text = ''B'', href = ''/b'', in_accordion = True\<rparr>],
                            [\<lparr>link_text = ''C'', href = ''https://x.org/c'',
                              in_accordion = False\<rparr>]]\<rparr>]"
  let ?p = "\<lparr>pub_date = ''2024-03-01'', pub_title = ''A'',
       pub_url = ''https://www.ecb.europa.eu/a'', original_date_text = ''1 March 2024''\<rparr>"
  let ?l = "\<lparr>link_text = ''C'', href = ''https://x.org/c'', in_accordion = False\<rparr>"
  have h1: "length (candidate_links emitted_candidate ?dls) > 1" by code_simp
  have h2: "1 \<le> length [?p]" and h3: "length [?p] \<le> 1" by simp_all
  have v: "take 1 (map publication_of (candidate_links emitted_candidate ?dls)) = [?p]"
    by code_simp
  from h1 h2 h3 v
    extraction_cap [of 1 ?dls None "[?p]" "''2024-02-29''" "[?l]" "[[?l]]" 0 "[''2024-02-29'']" ?dls]
  show ?thesis by simp
qed

text \<open>
  C1 as stated fails: two links with an empty href have a non-empty title, a heading that
  parses and no accordion around them, so the snapshot has two candidates in the sense of
  the claim and the limit is 1; the code emits none of them, since it asks for a
  non-empty url too.
\<close>

theorem empty_href_counterexample:
  "length (candidate_links claimed_candidate
            [\<lparr>dt_elements = [''1 March 2024''],
              dd_elements = [[\<lparr>link_text = ''A'', href = [], in_accordion = False\<rparr>,
                              \<lparr>link_text = ''B'', href = [], in_accordion = False\<rparr>]]\<rparr>]) = 2
   \<and> extract_publications_from_html 1
        (Some [\<lparr>dt_elements = [''1 March 2024''],
                dd_elements = [[\<lparr>link_text = ''A'', href = [], in_accordion = False\<rparr>,
                                \<lparr>link_text = ''B'', href = [], in_accordion = False\<rparr>]]\<rparr>]) = []"
  by code_simp

section \<open>Retrying and the fallback download\<close>

lemma retry_loop_sound:
  "retry_loop p operation a sl = (out, n, sleeps) \<Longrightarrow> a \<le> stop_after_attempt p \<Longrightarrow>
     a \<le> n \<and> n \<le> stop_after_attempt p \<and> sleeps = sl @ map (wait p) [a..<n]
     \<and> (\<forall>j. a \<le> j \<and> j < n \<longrightarrow> retryable_failure p (operation j))
     \<and> ((\<exists>v. out = Returned v \<and> operation n = Returned v)
        \<or> (\<exists>e. out = Raised e \<and> operation n = Raised e \<and> \<not> retry_if p e)
        \<or> (out = Raised RetryError \<and> retryable_failure p (operation n)
            \<and> n = stop_after_attempt p))"
proof (induction p operation a sl rule: retry_loop.induct)
  case (1 p operation attempt sl)
  show ?case
  proof (cases "operation attempt")
    case (Returned v)
    with "1.prems" have eq: "out = Returned v" "n = attempt" "sleeps = sl"
      by (auto simp: retry_loop.simps [of p operation attempt])
    with Returned "1.prems"(2) show ?thesis by auto
  next
    case (Raised e)
    show ?thesis
    proof (cases "retry_if p e")
      case False
      with Raised "1.prems" have eq: "out = Raised e" "n = attempt" "sleeps = sl"
        by (auto simp: retry_loop.simps [of p operation attempt])
      with Raised False "1.prems"(2) show ?thesis by auto
    next
      case True
      show ?thesis
      proof (cases "attempt \<ge> stop_after_attempt p")
        case True
        with Raised \<open>retry_if p e\<close> "1.prems"
        have eq: "out = Raised RetryError" "n = attempt" "sleeps = sl"
          by (auto simp: retry_loop.simps [of p operation attempt])
        with Raised \<open>retry_if p e\<close> True "1.prems"(2) show ?thesis
          by (auto simp: retryable_failure_def)
      next
        case False
        with Raised True "1.prems"
        have r: "retry_loop p operation (Suc attempt) (sl @ [wait p attempt]) = (out, n, sleeps)"
          by (simp add: retry_loop.simps [of p operation attempt])
        from False have le: "Suc attempt \<le> stop_after_attempt p" by simp
        note ih = "1.IH" [OF Raised _ False r le]
        from True have ih': "Suc attempt \<le> n \<and> n \<le> stop_after_attempt p
          \<and> sleeps = (sl @ [wait p attempt]) @ map (wait p) [Suc attempt..<n]
          \<and> (\<forall>j. Suc attempt \<le> j \<and> j < n \<longrightarrow> retryable_failure p (operation j))
          \<and> ((\<exists>v. out = Returned v \<and> operation n = Returned v)
            \<or> (\<exists>e. out = Raised e \<and> operation n = Raised e \<and> \<not> retry_if p e)
            \<or> (out = Raised RetryError \<and> retryable_failure p (operation n)
                \<and> n = stop_after_attempt p))"
          using ih by simp
        have here: "retryable_failure p (operation attempt)"
          using Raised True by (simp add: retryable_failure_def)
        have all: "\<forall>j. attempt \<le> j \<and> j < n \<longrightarrow> retryable_failure p (operation j)"
        proof (intro allI impI)
          fix j assume "attempt \<le> j \<and> j < n"
          then consider "j = attempt" | "Suc attempt \<le> j \<and> j < n" by linarith
          then show "retryable_failure p (operation j)" using here ih' by cases auto
        qed
        have sl: "sleeps = sl @ map (wait p) [attempt..<n]"
          using ih' by (simp add: upt_conv_Cons)
        from ih' all sl show ?thesis by auto
      qed
    qed
  qed
qed

lemma retry_sound:
  assumes "retry p operation = (out, n, sleeps)" and "1 \<le> stop_after_attempt p"
  shows "1 \<le> n \<and> n \<le> stop_after_attempt p \<and> sleeps = map (wait p) [1..<n]
     \<and> (\<forall>j. 1 \<le> j \<and> j < n \<longrightarrow> retryable_failure p (operation j))
     \<and> ((\<exists>v. out = Returned v \<and> operation n = Returned v)
        \<or> (\<exists>e. out = Raised e \<and> operation n = Raised e \<and> \<not> retry_if p e)
        \<or> (out = Raised RetryError \<and> retryable_failure p (operation n)
            \<and> n = stop_after_attempt p))"
  using retry_loop_sound [of p operation 1 "[]" out n sleeps] assms
  by (simp add: retry_def)

lemma exhausted_iff:
  "exhausted p operation
     \<longleftrightarrow> (\<forall>k. 1 \<le> k \<and> k \<le> stop_after_attempt p \<longrightarrow> retryable_failure p (operation k))"
  by (auto simp: exhausted_def list_all_iff)

lemma rejected_iff:
  "rejected p operation
     \<longleftrightarrow> (\<exists>k. 1 \<le> k \<and> k \<le> stop_after_attempt p \<and> final_failure p (operation k)
             \<and> (\<forall>j. 1 \<le> j \<and> j < k \<longrightarrow> retryable_failure p (operation j)))"
  by (auto simp: rejected_def rejected_at_def list_ex_iff list_all_iff)

lemma failure_kinds:
  "retryable_failure p out \<Longrightarrow> \<not> final_failure p out"
  "retryable_failure p out \<Longrightarrow> is_raised out"
  "final_failure p out \<Longrightarrow> is_raised out"
  by (auto simp: retryable_failure_def final_failure_def is_raised_def split: outcome.splits)

lemma retry_raised_iff:
  assumes stop: "1 \<le> stop_after_attempt p"
  shows "is_raised (fst (retry p operation)) \<longleftrightarrow> gives_up p operation"
proof -
  obtain out n sleeps where r: "retry p operation = (out, n, sleeps)"
    by (cases "retry p operation") auto
  note s = retry_sound [OF r stop]
  show ?thesis
  proof
    assume "is_raised (fst (retry p operation))"
    with r have raised: "is_raised out" by simp
    from s raised consider
        e where "out = Raised e" "operation n = Raised e" "\<not> retry_if p e"
      | "retryable_failure p (operation n)" "n = stop_after_attempt p"
      by (auto simp: is_raised_def)
    then show "gives_up p operation"
    proof cases
      case 1
      then have "final_failure p (operation n)" by (simp add: final_failure_def)
      with s have "rejected p operation" unfolding rejected_iff by blast
      then show ?thesis by (simp add: gives_up_def)
    next
      case 2
      have "\<forall>k. 1 \<le> k \<and> k \<le> stop_after_attempt p \<longrightarrow> retryable_failure p (operation k)"
      proof (intro allI impI)
        fix k assume k: "1 \<le> k \<and> k \<le> stop_after_attempt p"
        then consider "k = n" | "k < n" using 2 by linarith
        then show "retryable_failure p (operation k)" using 2 s k by cases auto
      qed
      then show ?thesis by (simp add: gives_up_def exhausted_iff)
    qed
  next
    assume "gives_up p operation"
    then consider "exhausted p operation" | "rejected p operation"
      by (auto simp: gives_up_def)
    then have "is_raised out"
    proof cases
      case 1
      then have "retryable_failure p (operation n)" using s by (simp add: exhausted_iff)
      then have "is_raised (operation n)" by (rule failure_kinds)
      with s show ?thesis by (auto simp: is_raised_def)
    next
      case 2
      then obtain k where k: "1 \<le> k" "k \<le> stop_after_attempt p" "final_failure p (operation k)"
        "\<forall>j. 1 \<le> j \<and> j < k \<longrightarrow> retryable_failure p (operation j)"
        unfolding rejected_iff by blast
      have "n = k"
      proof (rule ccontr)
        assume "n \<noteq> k"
        then consider "n < k" | "k < n" by linarith
        then show False
        proof cases
          case 1
          with k s have rf: "retryable_failure p (operation n)" by simp
          with s 1 k show False
            by (auto simp: retryable_failure_def split: outcome.splits)
        next
          case 2
          with k s have "retryable_failure p (operation k)" by simp
          with k failure_kinds(1) show False by blast
        qed
      qed
      with k have "is_raised (operation n)" using failure_kinds(3) by blast
      with s show ?thesis by (auto simp: is_raised_def)
    qed
    with r show "is_raised (fst (retry p operation))" by simp
  qed
qed

lemma retry_exhausted_attempts:
  assumes stop: "1 \<le> stop_after_attempt p" and ex: "exhausted p operation"
  shows "fst (snd (retry p operation)) = stop_after_attempt p"
proof -
  obtain out n sleeps where r: "retry p operation = (out, n, sleeps)"
    by (cases "retry p operation") auto
  note s = retry_sound [OF r stop]
  from ex s have "retryable_failure p (operation n)" by (simp add: exhausted_iff)
  with s have "n = stop_after_attempt p"
    by (auto simp: retryable_failure_def split: outcome.splits)
  with r show ?thesis by simp
qed

lemma retry_attempts_bounds:
  assumes stop: "1 \<le> stop_after_attempt p"
  shows "1 \<le> fst (snd (retry p operation)) \<and> fst (snd (retry p operation)) \<le> stop_after_attempt p"
proof -
  obtain out n sleeps where r: "retry p operation = (out, n, sleeps)"
    by (cases "retry p operation") auto
  from retry_sound [OF r stop] r show ?thesis by simp
qed

lemma any_exception_not_rejected:
  "retry_if p = any_exception \<Longrightarrow> \<not> rejected p operation"
  by (auto simp: rejected_iff final_failure_def any_exception_def split: outcome.splits)


lemma retry_attempts_at:
  assumes stop: "1 \<le> stop_after_attempt p"
    and k: "1 \<le> k" "k \<le> stop_after_attempt p"
    and before: "list_all (\<lambda>j. retryable_failure p (operation j)) [1..<k]"
    and here: "\<not> retryable_failure p (operation k)"
  shows "fst (snd (retry p operation)) = k"
proof -
  obtain out n sleeps where r: "retry p operation = (out, n, sleeps)"
    by (cases "retry p operation") auto
  note s = retry_sound [OF r stop]
  from before have b: "\<And>j. 1 \<le> j \<Longrightarrow> j < k \<Longrightarrow> retryable_failure p (operation j)"
    by (simp add: list_all_iff)
  have "n = k"
  proof (rule ccontr)
    assume "n \<noteq> k"
    then consider "n < k" | "k < n" by linarith
    then show False
    proof cases
      case 1
      with s b have rf: "retryable_failure p (operation n)" by simp
      with s 1 k show False
        by (auto simp: retryable_failure_def split: outcome.splits)
    next
      case 2
      with k s have "retryable_failure p (operation k)" by simp
      with here show False by simp
    qed
  qed
  with r show ?thesis by simp
qed

text \<open>
  C6, as amended. \<open>download_pdf\<close> invokes the fallback transport exactly when the
  primary strategy has given up: after three failed attempts when every failure is of a
  class that the primary retries on (\<open>ClientError\<close>, \<open>ServerTimeoutError\<close>, \<open>OSError\<close>),
  or at once after an attempt that fails with any other exception, which is not retried:
  the primary strategy then ends with that attempt, so that the number of its attempts is
  the number of the rejected one. A strategy that succeeds ends with the successful
  attempt. The function returns true exactly when one of the two strategies succeeds,
  and false exactly when the primary has given up and the fallback has used up its two
  attempts; no exception reaches the caller, every outcome of the two strategies being
  turned into a boolean result.
\<close>

theorem download_pdf_fallback:
  "let d = download_pdf primary fallback;
       P = (\<lambda>k. download_pdf_with_aiohttp (primary k));
       F = (\<lambda>k. download_pdf_with_requests (fallback k))
   in (0 < fallback_attempts d \<longleftrightarrow> gives_up aiohttp_policy P)
    \<and> (gives_up aiohttp_policy P \<longleftrightarrow> exhausted aiohttp_policy P \<or> rejected aiohttp_policy P)
    \<and> (exhausted aiohttp_policy P \<longrightarrow> primary_attempts d = 3)
    \<and> (\<forall>k. rejected_at aiohttp_policy P k \<and> 1 \<le> k \<and> k \<le> 3 \<longrightarrow> primary_attempts d = k)
    \<and> (\<forall>k. 1 \<le> k \<and> k \<le> 3 \<and> P k = Returned True
             \<and> list_all (\<lambda>j. retryable_failure aiohttp_policy (P j)) [1..<k]
           \<longrightarrow> primary_attempts d = k \<and> fallback_attempts d = 0 \<and> succeeded d)
    \<and> (\<forall>k. gives_up aiohttp_policy P \<and> 1 \<le> k \<and> k \<le> 2 \<and> F k = Returned True
             \<and> list_all (\<lambda>j. retryable_failure requests_policy (F j)) [1..<k]
           \<longrightarrow> fallback_attempts d = k \<and> succeeded d)
    \<and> (succeeded d \<longleftrightarrow> \<not> gives_up aiohttp_policy P \<or> \<not> exhausted requests_policy F)
    \<and> (\<not> succeeded d \<longleftrightarrow> gives_up aiohttp_policy P \<and> exhausted requests_policy F)
    \<and> (\<not> succeeded d \<longrightarrow> fallback_attempts d = 2)
    \<and> 1 \<le> primary_attempts d \<and> primary_attempts d \<le> 3 \<and> fallback_attempts d \<le> 2"
proof -
  let ?P = "\<lambda>k. download_pdf_with_aiohttp (primary k)"
  let ?F = "\<lambda>k. download_pdf_with_requests (fallback k)"
  let ?d = "download_pdf primary fallback"
  obtain o1 n s1 where r1: "retry aiohttp_policy ?P = (o1, n, s1)"
    by (cases "retry aiohttp_policy ?P") auto
  obtain o2 m s2 where r2: "retry requests_policy ?F = (o2, m, s2)"
    by (cases "retry requests_policy ?F") auto
  have st1: "1 \<le> stop_after_attempt aiohttp_policy" "stop_after_attempt aiohttp_policy = 3"
    by (simp_all add: aiohttp_policy_def)
  have st2: "1 \<le> stop_after_attempt requests_policy" "stop_after_attempt requests_policy = 2"
    by (simp_all add: requests_policy_def)
  have g1: "is_raised o1 \<longleftrightarrow> gives_up aiohttp_policy ?P"
    using retry_raised_iff [OF st1(1), of ?P] r1 by simp
  have "\<not> rejected requests_policy ?F"
    by (rule any_exception_not_rejected) (simp add: requests_policy_def)
  then have g2: "is_raised o2 \<longleftrightarrow> exhausted requests_policy ?F"
    using retry_raised_iff [OF st2(1), of ?F] r2 by (simp add: gives_up_def)
  have n: "1 \<le> n \<and> n \<le> 3"
    using retry_attempts_bounds [OF st1(1), of ?P] r1 st1(2) by simp
  have m: "1 \<le> m \<and> m \<le> 2"
    using retry_attempts_bounds [OF st2(1), of ?F] r2 st2(2) by simp
  have nx: "exhausted aiohttp_policy ?P \<longrightarrow> n = 3"
    using retry_exhausted_attempts [OF st1(1), of ?P] r1 st1(2) by simp
  have mx: "exhausted requests_policy ?F \<longrightarrow> m = 2"
    using retry_exhausted_attempts [OF st2(1), of ?F] r2 st2(2) by simp
  have d: "?d = (if is_raised o1
                 then \<lparr>succeeded = \<not> is_raised o2, primary_attempts = n, fallback_attempts = m\<rparr>
                 else \<lparr>succeeded = True, primary_attempts = n, fallback_attempts = 0\<rparr>)"
    using r1 r2 by (simp add: download_pdf_def is_raised_def split: outcome.splits)
  have pa: "primary_attempts ?d = n" unfolding d by simp
  have rj: "\<forall>k. rejected_at aiohttp_policy ?P k \<and> 1 \<le> k \<and> k \<le> 3 \<longrightarrow> primary_attempts ?d = k"
  proof (intro allI impI)
    fix k assume a: "rejected_at aiohttp_policy ?P k \<and> 1 \<le> k \<and> k \<le> 3"
    then have "\<not> retryable_failure aiohttp_policy (?P k)"
      using failure_kinds(1) [of aiohttp_policy "?P k"] by (auto simp: rejected_at_def)
    with a have "fst (snd (retry aiohttp_policy ?P)) = k"
      by (intro retry_attempts_at) (simp_all add: st1 rejected_at_def)
    with r1 pa show "primary_attempts ?d = k" by simp
  qed
  have ret: "\<And>p out. out = Returned True \<Longrightarrow> \<not> retryable_failure p out \<and> \<not> is_raised out"
    by (simp add: retryable_failure_def is_raised_def)
  have ok1: "\<forall>k. 1 \<le> k \<and> k \<le> 3 \<and> ?P k = Returned True
             \<and> list_all (\<lambda>j. retryable_failure aiohttp_policy (?P j)) [1..<k]
           \<longrightarrow> primary_attempts ?d = k \<and> fallback_attempts ?d = 0 \<and> succeeded ?d"
  proof (intro allI impI)
    fix k assume a: "1 \<le> k \<and> k \<le> 3 \<and> ?P k = Returned True
             \<and> list_all (\<lambda>j. retryable_failure aiohttp_policy (?P j)) [1..<k]"
    then have nr: "\<not> retryable_failure aiohttp_policy (?P k)" using ret by simp
    with a have "fst (snd (retry aiohttp_policy ?P)) = k"
      by (intro retry_attempts_at) (simp_all add: st1)
    with r1 have nk: "n = k" by simp
    from retry_sound [OF r1 st1(1)] nk a have "\<not> is_raised o1"
      by (auto simp: is_raised_def retryable_failure_def)
    with nk show "primary_attempts ?d = k \<and> fallback_attempts ?d = 0 \<and> succeeded ?d"
      unfolding d by simp
  qed
  have ok2: "\<forall>k. gives_up aiohttp_policy ?P \<and> 1 \<le> k \<and> k \<le> 2 \<and> ?F k = Returned True
             \<and> list_all (\<lambda>j. retryable_failure requests_policy (?F j)) [1..<k]
           \<longrightarrow> fallback_attempts ?d = k \<and> succeeded ?d"
  proof (intro allI impI)
    fix k assume a: "gives_up aiohttp_policy ?P \<and> 1 \<le> k \<and> k \<le> 2 \<and> ?F k = Returned True
             \<and> list_all (\<lambda>j. retryable_failure requests_policy (?F j)) [1..<k]"
    then have nr: "\<not> retryable_failure requests_policy (?F k)" using ret by simp
    with a have "fst (snd (retry requests_policy ?F)) = k"
      by (intro retry_attempts_at) (simp_all add: st2)
    with r2 have mk: "m = k" by simp
    from retry_sound [OF r2 st2(1)] mk a have "\<not> is_raised o2"
      by (auto simp: is_raised_def retryable_failure_def)
    with mk a g1 show "fallback_attempts ?d = k \<and> succeeded ?d"
      unfolding d by simp
  qed
  have rest: "(0 < fallback_attempts ?d \<longleftrightarrow> gives_up aiohttp_policy ?P)
    \<and> (gives_up aiohttp_policy ?P \<longleftrightarrow> exhausted aiohttp_policy ?P \<or> rejected aiohttp_policy ?P)
    \<and> (exhausted aiohttp_policy ?P \<longrightarrow> primary_attempts ?d = 3)
    \<and> (succeeded ?d \<longleftrightarrow> \<not> gives_up aiohttp_policy ?P \<or> \<not> exhausted requests_policy ?F)
    \<and> (\<not> succeeded ?d \<longleftrightarrow> gives_up aiohttp_policy ?P \<and> exhausted requests_policy ?F)
    \<and> (\<not> succeeded ?d \<longrightarrow> fallback_attempts ?d = 2)
    \<and> 1 \<le> primary_attempts ?d \<and> primary_attempts ?d \<le> 3 \<and> fallback_attempts ?d \<le> 2"
    unfolding d using g1 g2 n m nx mx by (auto simp: gives_up_def)
  from rest rj ok1 ok2 show ?thesis unfolding Let_def by blast
qed

theorem download_pdf_fallback_witness:
  "primary_attempts (download_pdf (always (Status 500)) (always (Status 404))) = 3
   \<and> fallback_attempts (download_pdf (always (Status 500)) (always (Status 404))) = 2
   \<and> \<not> succeeded (download_pdf (always (Status 500)) (always (Status 404)))
   \<and> primary_attempts (download_pdf (always (Failure OtherException)) (always (Status 200))) = 1
   \<and> fallback_attempts (download_pdf (always (Failure OtherException)) (always (Status 200))) = 1
   \<and> succeeded (download_pdf (always (Failure OtherException)) (always (Status 200)))
   \<and> primary_attempts (download_pdf (always (Status 200)) (always (Status 404))) = 1
   \<and> fallback_attempts (download_pdf (always (Status 200)) (always (Status 404))) = 0"
proof -
  let ?P = "\<lambda>k. download_pdf_with_aiohttp (always (Status 500) k)"
  let ?F = "\<lambda>k. download_pdf_with_requests (always (Status 404) k)"
  let ?Q = "\<lambda>k. download_pdf_with_aiohttp (always (Failure OtherException) k)"
  let ?G = "\<lambda>k. download_pdf_with_requests (always (Status 200) k)"
  let ?R = "\<lambda>k. download_pdf_with_aiohttp (always (Status 200) k)"
  have h1: "exhausted aiohttp_policy ?P" by code_simp
  have h2: "exhausted requests_policy ?F" by code_simp
  from h1 have h3: "gives_up aiohttp_policy ?P" by (simp add: gives_up_def)
  from h1 h2 h3 download_pdf_fallback [of "always (Status 500)" "always (Status 404)"]
  have a: "primary_attempts (download_pdf (always (Status 500)) (always (Status 404))) = 3
   \<and> fallback_attempts (download_pdf (always (Status 500)) (always (Status 404))) = 2
   \<and> \<not> succeeded (download_pdf (always (Status 500)) (always (Status 404)))"
    by (simp add: Let_def)
  have h4: "rejected_at aiohttp_policy ?Q 1 \<and> (1::nat) \<le> 1 \<and> (1::nat) \<le> 3" by code_simp
  have h5: "gives_up aiohttp_policy ?Q" by code_simp
  have h6: "gives_up aiohttp_policy ?Q \<and> (1::nat) \<le> 1 \<and> (1::nat) \<le> 2 \<and> ?G 1 = Returned True
             \<and> list_all (\<lambda>j. retryable_failure requests_policy (?G j)) [1..<1]"
    by code_simp
  from download_pdf_fallback [of "always (Failure OtherException)" "always (Status 200)"]
  have b0: "(\<forall>k. rejected_at aiohttp_policy ?Q k \<and> 1 \<le> k \<and> k \<le> 3 \<longrightarrow>
      primary_attempts (download_pdf (always (Failure OtherException)) (always (Status 200))) = k)
    \<and> (\<forall>k. gives_up aiohttp_policy ?Q \<and> 1 \<le> k \<and> k \<le> 2 \<and> ?G k = Returned True
             \<and> list_all (\<lambda>j. retryable_failure requests_policy (?G j)) [1..<k]
           \<longrightarrow> fallback_attempts (download_pdf (always (Failure OtherException)) (always (Status 200))) = k
               \<and> succeeded (download_pdf (always (Failure OtherException)) (always (Status 200))))"
    unfolding Let_def by blast
  from b0 h4 h6
  have b: "primary_attempts (download_pdf (always (Failure OtherException)) (always (Status 200))) = 1
   \<and> fallback_attempts (download_pdf (always (Failure OtherException)) (always (Status 200))) = 1
   \<and> succeeded (download_pdf (always (Failure OtherException)) (always (Status 200)))"
    by blast
  have h7: "(1::nat) \<le> 1 \<and> (1::nat) \<le> 3 \<and> ?R 1 = Returned True
             \<and> list_all (\<lambda>j. retryable_failure aiohttp_policy (?R j)) [1..<1]"
    by code_simp
  from download_pdf_fallback [of "always (Status 200)" "always (Status 404)"]
  have c0: "\<forall>k. 1 \<le> k \<and> k \<le> 3 \<and> ?R k = Returned True
             \<and> list_all (\<lambda>j. retryable_failure aiohttp_policy (?R j)) [1..<k]
           \<longrightarrow> primary_attempts (download_pdf (always (Status 200)) (always (Status 404))) = k
             \<and> fallback_attempts (download_pdf (always (Status 200)) (always (Status 404))) = 0
             \<and> succeeded (download_pdf (always (Status 200)) (always (Status 404)))"
    unfolding Let_def by blast
  from c0 h7
  have c: "primary_attempts (download_pdf (always (Status 200)) (always (Status 404))) = 1
   \<and> fallback_attempts (download_pdf (always (Status 200)) (always (Status 404))) = 0"
    by blast
  from a b c show ?thesis by blast
qed

text \<open>
  C6 as stated fails: when the first attempt of the primary transport raises an exception
  outside the retried classes, the fallback runs after that single attempt, not after
  three.
\<close>

theorem rejected_error_counterexample:
  "fallback_attempts (download_pdf (always (Failure OtherException)) (always (Status 200))) = 1
   \<and> primary_attempts (download_pdf (always (Failure OtherException)) (always (Status 200))) = 1"
  by code_simp

section \<open>The delays between attempts\<close>

lemma wait_exponential_small:
  assumes "1 \<le> k" and "k < 3" and "2 \<le> max_delay"
  shows "wait_exponential 1 min_delay max_delay k = max min_delay (2 ^ (k - 1))"
    and "wait_exponential 1 2 max_delay k = 2"
proof -
  from assms have "k = 1 \<or> k = 2" by arith
  then show "wait_exponential 1 min_delay max_delay k = max min_delay (2 ^ (k - 1))"
    using assms(3) by (auto simp: wait_exponential_def)
  from \<open>k = 1 \<or> k = 2\<close> show "wait_exponential 1 2 max_delay k = 2"
    using assms(3) by (auto simp: wait_exponential_def)
qed

lemma small_power: "1 \<le> k \<Longrightarrow> k < 3 \<Longrightarrow> max 2 (2 ^ (k - 1)) = (2::nat)"
proof -
  assume "1 \<le> k" "k < 3"
  then have "k = 1 \<or> k = 2" by arith
  then show ?thesis by auto
qed

text \<open>
  C9, as amended. The sleeps of a retried operation are the waits of its policy after the
  failed attempts 1, 2, ... in order, one before each retry. At every decorated call site
  the wait after the failed attempt \<open>k\<close>, with attempts remaining, is the larger of the
  minimum delay and \<open>2 ^ (k - 1)\<close> seconds (the multiplier is 1 everywhere and the
  maximum is never reached); the formula of the specification gives the minimum delay
  there. The two agree at the call sites whose minimum is 2 seconds; for the primary
  direct-fetch transport in particular every delay is 2 seconds, its minimum.
\<close>

theorem retry_delays:
  "(retry p operation = (out, n, sleeps) \<and> 1 \<le> stop_after_attempt p
      \<longrightarrow> sleeps = map (wait p) [1..<n] \<and> n \<le> stop_after_attempt p)
   \<and> (\<forall>site \<in> set call_sites.
         case site of (name, attempts, multiplier, min_delay, max_delay) \<Rightarrow>
           \<forall>k. 1 \<le> k \<and> k < attempts \<longrightarrow>
             wait_exponential multiplier min_delay max_delay k = max min_delay (2 ^ (k - 1))
             \<and> spec_delay multiplier min_delay max_delay k = min_delay
             \<and> (min_delay = 2 \<longrightarrow> wait_exponential multiplier min_delay max_delay k = min_delay))
   \<and> snd (snd (retry aiohttp_policy operation'))
       = replicate (fst (snd (retry aiohttp_policy operation')) - 1) 2"
proof -
  have a: "retry p operation = (out, n, sleeps) \<and> 1 \<le> stop_after_attempt p
      \<longrightarrow> sleeps = map (wait p) [1..<n] \<and> n \<le> stop_after_attempt p"
    using retry_sound [of p operation out n sleeps] by blast
  have b: "\<forall>site \<in> set call_sites.
         case site of (name, attempts, multiplier, min_delay, max_delay) \<Rightarrow>
           \<forall>k. 1 \<le> k \<and> k < attempts \<longrightarrow>
             wait_exponential multiplier min_delay max_delay k = max min_delay (2 ^ (k - 1))
             \<and> spec_delay multiplier min_delay max_delay k = min_delay
             \<and> (min_delay = 2 \<longrightarrow> wait_exponential multiplier min_delay max_delay k = min_delay)"
    by (auto simp: call_sites_def spec_delay_def wait_exponential_small small_power
          simp del: One_nat_def)
  obtain o1 n1 s1 where r: "retry aiohttp_policy operation' = (o1, n1, s1)"
    by (cases "retry aiohttp_policy operation'") auto
  have "1 \<le> stop_after_attempt aiohttp_policy" by (simp add: aiohttp_policy_def)
  from retry_sound [OF r this] have s: "1 \<le> n1" "n1 \<le> 3" "s1 = map (wait aiohttp_policy) [1..<n1]"
    by (simp_all add: aiohttp_policy_def)
  then consider "n1 = 1" | "n1 = 2" | "n1 = 3" by linarith
  then have "s1 = replicate (n1 - 1) 2"
    using s(3)
    by cases (simp_all add: aiohttp_policy_def wait_exponential_def upt_rec numeral_2_eq_2
                numeral_3_eq_3)
  with r have c: "snd (snd (retry aiohttp_policy operation'))
       = replicate (fst (snd (retry aiohttp_policy operation')) - 1) 2"
    by simp
  from a b c show ?thesis by blast
qed

theorem retry_delays_witness:
  "retry aiohttp_policy (always (Raised OSError :: unit outcome)) = (Raised RetryError, 3, [2, 2])
   \<and> wait_exponential 1 2 8 2 = 2 \<and> spec_delay 1 2 8 2 = 2"
proof -
  let ?op = "always (Raised OSError :: unit outcome)"
  have r: "retry aiohttp_policy ?op = (Raised RetryError, 3, [2, 2])" by code_simp
  have s: "1 \<le> stop_after_attempt aiohttp_policy" by code_simp
  have m: "(''download_pdf_with_aiohttp'', 3, 1, 2, 8) \<in> set call_sites" by code_simp
  have k: "(1::nat) \<le> 2 \<and> (2::nat) < 3" by simp
  from retry_delays [of aiohttp_policy ?op "Raised RetryError" 3 "[2, 2]" ?op] r s m k
  show ?thesis by (auto simp del: One_nat_def)
qed

text \<open>
  C9 as stated fails at \<open>get_page_height\<close> (and \<open>scroll_to_bottom\<close>), whose minimum
  delay is 1 second: the wait after the second failed attempt is 2 seconds, where the
  formula of the specification gives 1.
\<close>

theorem page_height_delay_counterexample:
  "(''get_page_height'', 3, 1, 1, 5) \<in> set call_sites
   \<and> wait_exponential 1 1 5 2 = 2 \<and> spec_delay 1 1 5 2 = 1
   \<and> retry page_height_policy (always (Raised OSError :: unit outcome))
       = (Raised RetryError, 3, [1, 2])"
  by code_simp

section \<open>The matcher on runs of characters\<close>

text \<open>
  On a pattern made of runs of character classes that exclude one another, the
  backtracking matcher takes the longest run at each item, so that a search with such a
  pattern is the leftmost position at which the form begins.
\<close>

lemma first_some_None: "\<forall>x\<in>set xs. f x = None \<Longrightarrow> first_some f xs = None"
  by (induction xs) auto

lemma first_some_rev_upt:
  assumes "\<forall>k. lo \<le> k \<and> k < n \<longrightarrow> f k = None"
  shows "first_some f (rev [lo..<Suc n]) = (if lo \<le> n then f n else None)"
proof (cases "lo \<le> n")
  case True
  have "first_some f (rev [lo..<n]) = None"
    by (rule first_some_None) (use assms in auto)
  with True show ?thesis by (simp split: option.splits)
next
  case False
  then show ?thesis by simp
qed

lemma longest_le: "longest c hi s \<le> length (takeWhile c s)"
  by (simp add: longest_def Let_def split: option.splits)

lemma takeWhile_nth_holds: "k < length (takeWhile c s) \<Longrightarrow> c (s ! k)"
  by (metis nth_mem set_takeWhileD takeWhile_nth)

lemma rep_first:
  "\<not> c x \<Longrightarrow> 1 \<le> lo \<Longrightarrow> match_items (Rep c lo hi # its) (x # s) = None"
  by (simp add: longest_def split: option.splits)


lemma rep_munch:
  assumes "\<And>x s'. c x \<Longrightarrow> match_items its (x # s') = None"
  shows "match_items (Rep c lo hi # its) s =
           (if lo \<le> longest c hi s
            then map_option (\<lambda>(caps, r). (take (longest c hi s) s # caps, r))
                   (match_items its (drop (longest c hi s) s))
            else None)"
proof -
  let ?f = "\<lambda>k. map_option (\<lambda>(caps, r). (take k s # caps, r)) (match_items its (drop k s))"
  have "\<forall>k. lo \<le> k \<and> k < longest c hi s \<longrightarrow> ?f k = None"
  proof (intro allI impI)
    fix k assume "lo \<le> k \<and> k < longest c hi s"
    then have k: "k < length (takeWhile c s)" using longest_le [of c hi s] by simp
    then have "k < length s" using length_takeWhile_le [of c s] by simp
    then have "drop k s = s ! k # drop (Suc k) s" by (simp add: Cons_nth_drop_Suc)
    moreover have "c (s ! k)" using k by (rule takeWhile_nth_holds)
    ultimately show "?f k = None" using assms by simp
  qed
  from first_some_rev_upt [OF this] show ?thesis by simp
qed

lemma rep_exact:
  "match_items (Rep c n (Some n) # its) s =
     (if n \<le> length (takeWhile c s)
      then map_option (\<lambda>(caps, r). (take n s # caps, r)) (match_items its (drop n s))
      else None)"
  by (simp add: longest_def Let_def min_def split: option.splits)

declare match_items.simps(3) [simp del]

lemma run_length: "n \<le> length (takeWhile c s) \<longleftrightarrow> n \<le> length s \<and> list_all c (take n s)"
proof (induction s arbitrary: n)
  case Nil
  then show ?case by simp
next
  case (Cons x s)
  then show ?case by (cases n) auto
qed

lemma take_run: "take (length (takeWhile c s)) s = takeWhile c s"
  by (simp add: takeWhile_eq_take [symmetric])

lemma drop_run: "drop (length (takeWhile c s)) s = dropWhile c s"
  by (simp add: dropWhile_eq_drop [symmetric])

lemma digit_not_space: "is_digit x \<Longrightarrow> \<not> is_space x"
  by (auto simp: is_digit_def is_space_def Let_def)

lemma digit_is_word: "is_digit x \<Longrightarrow> is_word x"
  by (auto simp: is_digit_def is_word_def Let_def)

lemma space_not_word: "is_space x \<Longrightarrow> \<not> is_word x"
  by (auto simp: is_space_def is_word_def Let_def)

lemma space_not_digit: "is_space x \<Longrightarrow> \<not> is_digit x"
  by (auto simp: is_digit_def is_space_def Let_def)

lemma word_not_space: "is_word x \<Longrightarrow> \<not> is_space x"
  by (auto simp: is_space_def is_word_def Let_def)


lemma one_le_length: "1 \<le> length xs \<longleftrightarrow> xs \<noteq> []"
  by (cases xs) auto

lemma year_item:
  "match_items [Rep is_digit 4 (Some 4)] s =
     (if 4 \<le> length s \<and> list_all is_digit (take 4 s) then Some ([take 4 s], drop 4 s) else None)"
  by (simp only: rep_exact run_length) simp

lemma space_year_items:
  "match_items [Rep is_space 1 None, Rep is_digit 4 (Some 4)] s =
     (let ws = takeWhile is_space s; s' = dropWhile is_space s
      in if ws \<noteq> [] \<and> 4 \<le> length s' \<and> list_all is_digit (take 4 s')
         then Some ([ws, take 4 s'], drop 4 s') else None)"
proof -
  have "\<And>x s'. is_space x \<Longrightarrow> match_items [Rep is_digit 4 (Some 4)] (x # s') = None"
    by (rule rep_first) (simp_all add: space_not_digit)
  from rep_munch [of is_space "[Rep is_digit 4 (Some 4)]" 1 None s, OF this]
  show ?thesis
    by (cases "takeWhile is_space s = []")
       (simp_all add: year_item longest_def take_run drop_run Let_def one_le_length
          del: One_nat_def)
qed

lemma word_space_year_items:
  "match_items [Rep is_word 1 None, Rep is_space 1 None, Rep is_digit 4 (Some 4)] s =
     (let word = takeWhile is_word s; s3 = dropWhile is_word s;
          ws = takeWhile is_space s3; s' = dropWhile is_space s3
      in if word \<noteq> [] \<and> ws \<noteq> [] \<and> 4 \<le> length s' \<and> list_all is_digit (take 4 s')
         then Some ([word, ws, take 4 s'], drop 4 s') else None)"
proof -
  have "\<And>x s'. is_word x \<Longrightarrow>
          match_items [Rep is_space 1 None, Rep is_digit 4 (Some 4)] (x # s') = None"
    by (rule rep_first) (simp_all add: word_not_space)
  from rep_munch [of is_word "[Rep is_space 1 None, Rep is_digit 4 (Some 4)]" 1 None s, OF this]
  show ?thesis
    by (cases "takeWhile is_word s = []")
       (simp_all add: space_year_items longest_def take_run drop_run Let_def one_le_length
          del: One_nat_def)
qed

lemma tail_items:
  "match_items [Rep is_space 1 None, Rep is_word 1 None, Rep is_space 1 None,
                Rep is_digit 4 (Some 4)] s =
     (let ws1 = takeWhile is_space s; s2 = dropWhile is_space s;
          word = takeWhile is_word s2; s3 = dropWhile is_word s2;
          ws2 = takeWhile is_space s3; s4 = dropWhile is_space s3
      in if ws1 \<noteq> [] \<and> word \<noteq> [] \<and> ws2 \<noteq> [] \<and> 4 \<le> length s4 \<and> list_all is_digit (take 4 s4)
         then Some ([ws1, word, ws2, take 4 s4], drop 4 s4) else None)"
proof -
  have "\<And>x s'. is_space x \<Longrightarrow>
          match_items [Rep is_word 1 None, Rep is_space 1 None, Rep is_digit 4 (Some 4)] (x # s')
            = None"
    by (rule rep_first) (simp_all add: space_not_word)
  from rep_munch [of is_space "[Rep is_word 1 None, Rep is_space 1 None, Rep is_digit 4 (Some 4)]"
         1 None s, OF this]
  show ?thesis
    by (cases "takeWhile is_space s = []")
       (simp_all add: word_space_year_items longest_def take_run drop_run Let_def one_le_length
          del: One_nat_def)
qed

lemma tail_items_digit:
  "is_digit x \<Longrightarrow>
   match_items [Rep is_space 1 None, Rep is_word 1 None, Rep is_space 1 None,
                Rep is_digit 4 (Some 4)] (x # s') = None"
  by (rule rep_first) (simp_all add: digit_not_space)

lemma dmy_match:
  "match_items dmy_pattern s =
     (let day = takeWhile is_digit s; s1 = dropWhile is_digit s;
          ws1 = takeWhile is_space s1; s2 = dropWhile is_space s1;
          word = takeWhile is_word s2; s3 = dropWhile is_word s2;
          ws2 = takeWhile is_space s3; s4 = dropWhile is_space s3
      in if 1 \<le> length day \<and> length day \<le> 2 \<and> ws1 \<noteq> [] \<and> word \<noteq> [] \<and> ws2 \<noteq> []
            \<and> 4 \<le> length s4 \<and> list_all is_digit (take 4 s4)
         then Some ([day, ws1, word, ws2, take 4 s4], drop 4 s4) else None)"
proof -
  let ?rest = "[Rep is_space 1 None, Rep is_word 1 None, Rep is_space 1 None,
                Rep is_digit 4 (Some 4)]"
  let ?n = "length (takeWhile is_digit s)"
  note m = rep_munch [of is_digit ?rest 1 "Some 2" s, OF tail_items_digit]
  show ?thesis
  proof (cases "?n \<le> 2")
    case True
    then have "longest is_digit (Some 2) s = ?n" by (simp add: longest_def)
    with m True show ?thesis
      by (simp add: dmy_pattern_def tail_items take_run drop_run Let_def del: One_nat_def)
  next
    case False
    then have l: "longest is_digit (Some 2) s = 2" by (simp add: longest_def)
    from False have "2 < length s" using length_takeWhile_le [of is_digit s] by simp
    then have d: "drop 2 s = s ! 2 # drop 3 s"
      using Cons_nth_drop_Suc [of 2 s] by (simp add: numeral_3_eq_3)
    have "is_digit (s ! 2)" by (rule takeWhile_nth_holds) (use False in simp)
    then have "match_items ?rest (drop 2 s) = None"
      unfolding d by (rule tail_items_digit)
    with m l False show ?thesis by (simp add: dmy_pattern_def Let_def del: One_nat_def)
  qed
qed

lemma dmy_match_form:
  "match_items dmy_pattern s =
     (case dmy_form s of
        None \<Rightarrow> None
      | Some (day, word, year) \<Rightarrow>
          Some ([day, takeWhile is_space (dropWhile is_digit s), word,
                 takeWhile is_space (dropWhile is_word (dropWhile is_space (dropWhile is_digit s))),
                 year],
                drop 4 (dropWhile is_space
                          (dropWhile is_word (dropWhile is_space (dropWhile is_digit s))))))"
  by (auto simp: dmy_match dmy_form_def Let_def)

lemma dmy_search_leftmost: "dmy_search s = leftmost dmy_form s"
proof (induction s)
  case Nil
  show ?case by (simp add: dmy_search_def dmy_match_form split: option.splits)
next
  case (Cons c cs)
  show ?case
  proof (cases "dmy_form (c # cs)")
    case None
    then have "match_items dmy_pattern (c # cs) = None" by (simp add: dmy_match_form)
    then have "dmy_search (c # cs) = dmy_search cs"
      by (simp add: dmy_search_def split: option.splits list.splits)
    with None Cons.IH show ?thesis by simp
  next
    case (Some a)
    then show ?thesis
      by (simp add: dmy_search_def dmy_match_form split: prod.splits)
  qed
qed

section \<open>Date parsing\<close>

lemma ten_prefix:
  "10 \<le> length s \<Longrightarrow>
     \<exists>c0 c1 c2 c3 c4 c5 c6 c7 c8 c9 r. s = c0 # c1 # c2 # c3 # c4 # c5 # c6 # c7 # c8 # c9 # r"
proof -
  assume "10 \<le> length s"
  then have "length (take 10 s) = 10" by simp
  from length_ten [OF this] obtain c0 c1 c2 c3 c4 c5 c6 c7 c8 c9
    where "take 10 s = [c0, c1, c2, c3, c4, c5, c6, c7, c8, c9]"
    by (elim exE)
  then have "s = [c0, c1, c2, c3, c4, c5, c6, c7, c8, c9] @ drop 10 s"
    by (metis append_take_drop_id)
  then have e: "s = c0 # c1 # c2 # c3 # c4 # c5 # c6 # c7 # c8 # c9 # drop 10 s" by simp
  show ?thesis by (intro exI) (rule e)
qed

lemma lit_item:
  "match_items (lit a # its) s =
     (case s of
        [] \<Rightarrow> None
      | x # s' \<Rightarrow> if x = a then map_option (\<lambda>(caps, r). ([a] # caps, r)) (match_items its s')
                  else None)"
  unfolding lit_def by (simp only: rep_exact) (auto split: list.splits)

lemma two_digits_item:
  "match_items (Rep is_digit 2 (Some 2) # its) s =
     (case s of
        x # y # s' \<Rightarrow> if is_digit x \<and> is_digit y
                      then map_option (\<lambda>(caps, r). ([x, y] # caps, r)) (match_items its s')
                      else None
      | _ \<Rightarrow> None)"
  by (simp only: rep_exact) (auto split: list.splits)

lemma four_digits_item:
  "match_items (Rep is_digit 4 (Some 4) # its) s =
     (case s of
        x # y # z # w # s' \<Rightarrow>
          if is_digit x \<and> is_digit y \<and> is_digit z \<and> is_digit w
          then map_option (\<lambda>(caps, r). ([x, y, z, w] # caps, r)) (match_items its s')
          else None
      | _ \<Rightarrow> None)"
  by (simp only: rep_exact) (auto split: list.splits)

lemma iso_match:
  "match_items iso_pattern s =
     (if iso_shaped (take 10 s)
      then Some ([take 4 s, ''-'', take 2 (drop 5 s), ''-'', take 2 (drop 8 s)], drop 10 s)
      else None)"
proof (cases "10 \<le> length s")
  case True
  from ten_prefix [OF this] obtain c0 c1 c2 c3 c4 c5 c6 c7 c8 c9 r
    where s: "s = c0 # c1 # c2 # c3 # c4 # c5 # c6 # c7 # c8 # c9 # r"
    by (elim exE)
  show ?thesis
    unfolding s iso_pattern_def
    by (simp add: four_digits_item lit_item two_digits_item iso_shaped_def)
next
  case False
  then have n: "\<not> iso_shaped (take 10 s)" by (simp add: iso_shaped_def)
  have "match_items iso_pattern s = None"
    unfolding iso_pattern_def using False
    by (auto simp: four_digits_item lit_item two_digits_item split: list.splits)
  with n show ?thesis by simp
qed

lemma iso_match_form:
  "map_option (\<lambda>(caps, r). concat caps) (match_items iso_pattern s) = iso_form s"
proof (cases "iso_shaped (take 10 s)")
  case True
  then have "length (take 10 s) = 10" by (simp add: iso_shaped_def)
  then have l: "10 \<le> length s" by simp
  have "take 4 s @ ''-'' @ take 2 (drop 5 s) @ ''-'' @ take 2 (drop 8 s) = take 10 s"
  proof -
    from ten_prefix [OF l] obtain c0 c1 c2 c3 c4 c5 c6 c7 c8 c9 r
      where s: "s = c0 # c1 # c2 # c3 # c4 # c5 # c6 # c7 # c8 # c9 # r"
      by (elim exE)
    from True show ?thesis unfolding s by (simp add: iso_shaped_def)
  qed
  with True show ?thesis by (simp add: iso_match iso_form_def)
next
  case False
  then show ?thesis by (simp add: iso_match iso_form_def)
qed

lemma iso_search_leftmost: "iso_search s = leftmost iso_form s"
proof (induction s)
  case Nil
  show ?case
    using iso_match_form [of "[]"]
    by (auto simp: iso_search_def split: option.splits)
next
  case (Cons c cs)
  show ?case
  proof (cases "match_items iso_pattern (c # cs)")
    case None
    then have "iso_form (c # cs) = None" using iso_match_form [of "c # cs"] by simp
    moreover from None have "iso_search (c # cs) = iso_search cs"
      by (simp add: iso_search_def split: option.splits)
    ultimately show ?thesis using Cons.IH by simp
  next
    case (Some a)
    obtain caps r where a: "a = (caps, r)" by (cases a)
    with Some have "iso_form (c # cs) = Some (concat caps)"
      using iso_match_form [of "c # cs"] by simp
    moreover from Some a have "iso_search (c # cs) = Some (concat caps)"
      by (simp add: iso_search_def)
    ultimately show ?thesis by simp
  qed
qed

lemma leftmost_Some: "leftmost f s = Some x \<Longrightarrow> \<exists>pre u. s = pre @ u \<and> f u = Some x"
proof (induction s)
  case Nil
  then show ?case by simp
next
  case (Cons c cs)
  show ?case
  proof (cases "f (c # cs)")
    case None
    with Cons obtain pre u where "cs = pre @ u" "f u = Some x" by auto
    then have "c # cs = (c # pre) @ u" by simp
    with \<open>f u = Some x\<close> show ?thesis by blast
  next
    case (Some a)
    with Cons.prems have "f (c # cs) = Some x" by simp
    then have "c # cs = [] @ (c # cs) \<and> f (c # cs) = Some x" by simp
    then show ?thesis by blast
  qed
qed

lemma month_number:
  assumes "month_names m = Some mm"
  shows "\<exists>a b. mm = [a, b] \<and> is_digit a \<and> is_digit b"
proof -
  let ?two = "\<lambda>x. case x of [a, b] \<Rightarrow> is_digit a \<and> is_digit b | _ \<Rightarrow> False"
  let ?table = "[(''January'', ''01''), (''February'', ''02''), (''March'', ''03''),
      (''April'', ''04''), (''May'', ''05''), (''June'', ''06''), (''July'', ''07''),
      (''August'', ''08''), (''September'', ''09''), (''October'', ''10''),
      (''November'', ''11''), (''December'', ''12'')]"
  have all: "list_all (\<lambda>p. ?two (snd p)) ?table" by code_simp
  from assms have "(m, mm) \<in> set ?table"
    unfolding month_names_def by (rule map_of_SomeD)
  with all have "?two (snd (m, mm))" unfolding list_all_iff by blast
  then show ?thesis by (auto split: list.splits)
qed

lemma zfill_day:
  "list_all is_digit day \<Longrightarrow> 1 \<le> length day \<Longrightarrow> length day \<le> 2 \<Longrightarrow>
     \<exists>a b. zfill 2 day = [a, b] \<and> is_digit a \<and> is_digit b"
proof -
  assume d: "list_all is_digit day" "1 \<le> length day" "length day \<le> 2"
  have z: "is_digit CHR ''0''" by (simp add: is_digit_def)
  have pm: "\<not> is_digit CHR ''+''" "\<not> is_digit CHR ''-''" by (simp_all add: is_digit_def)
  from d(2,3) consider a where "day = [a]" | a b where "day = [a, b]"
    by (cases day; cases "tl day"; cases "tl (tl day)") auto
  then show ?thesis
  proof cases
    case 1
    with d(1) z pm show ?thesis by (auto simp: zfill_def)
  next
    case 2
    with d(1) pm show ?thesis by (auto simp: zfill_def)
  qed
qed

lemma takeWhile_all: "list_all c (takeWhile c s)"
  by (induction s) auto

lemma dmy_form_shape:
  assumes "dmy_form u = Some (day, word, year)"
  shows "list_all is_digit day \<and> 1 \<le> length day \<and> length day \<le> 2
     \<and> length year = 4 \<and> list_all is_digit year"
proof -
  let ?s4 = "dropWhile is_space (dropWhile is_word (dropWhile is_space (dropWhile is_digit u)))"
  let ?c = "1 \<le> length (takeWhile is_digit u) \<and> length (takeWhile is_digit u) \<le> 2
      \<and> takeWhile is_space (dropWhile is_digit u) \<noteq> []
      \<and> takeWhile is_word (dropWhile is_space (dropWhile is_digit u)) \<noteq> []
      \<and> takeWhile is_space (dropWhile is_word (dropWhile is_space (dropWhile is_digit u))) \<noteq> []
      \<and> length (take 4 ?s4) = 4 \<and> list_all is_digit (take 4 ?s4)"
  let ?v = "(takeWhile is_digit u,
             takeWhile is_word (dropWhile is_space (dropWhile is_digit u)), take 4 ?s4)"
  have f: "dmy_form u = (if ?c then Some ?v else None)"
    unfolding dmy_form_def Let_def by (rule refl)
  show ?thesis
  proof (cases ?c)
    case True
    have "dmy_form u = Some ?v" by (subst f) (rule if_P [OF True])
    with assms have "Some ?v = Some (day, word, year)" by (simp only:)
    then have dy: "day = takeWhile is_digit u" "year = take 4 ?s4"
      by (simp_all only: option.inject prod.inject)
    from True have c: "1 \<le> length (takeWhile is_digit u)" "length (takeWhile is_digit u) \<le> 2"
      "length (take 4 ?s4) = 4" "list_all is_digit (take 4 ?s4)"
      by blast+
    show ?thesis unfolding dy using c takeWhile_all [of is_digit u] by blast
  next
    case False
    have "dmy_form u = None" by (subst f) (rule if_not_P [OF False])
    with assms show ?thesis by simp
  qed
qed

lemma iso_shaped_built:
  assumes "length year = 4" "list_all is_digit year"
    and "is_digit a" "is_digit b" "is_digit c" "is_digit d"
  shows "iso_shaped (year @ ''-'' @ [a, b] @ ''-'' @ [c, d])"
proof -
  from assms(1) obtain y0 y1 y2 y3 where "year = [y0, y1, y2, y3]"
    by (auto simp: eval_nat_numeral length_Suc_conv)
  with assms show ?thesis by (simp add: iso_shaped_def)
qed

lemma parse_date_cases:
  "parse_date s =
     (case leftmost dmy_form (strip s) of
        Some (day, word, year) \<Rightarrow>
          (case month_names word of
             Some month_num \<Rightarrow> Some (year @ ''-'' @ month_num @ ''-'' @ zfill 2 day)
           | None \<Rightarrow> leftmost iso_form (strip s))
      | None \<Rightarrow> leftmost iso_form (strip s))"
proof (cases "s = []")
  case True
  have 1: "strip [] = []" by (simp add: strip_def)
  have 2: "leftmost dmy_form [] = None" by (simp add: dmy_form_def)
  have 3: "leftmost iso_form [] = None" by (simp add: iso_form_def iso_shaped_def)
  have 4: "parse_date [] = None" by (simp add: parse_date_def)
  show ?thesis unfolding True 1 2 3 4 by simp
next
  case False
  then have "parse_date s =
      (case dmy_search (strip s) of
                Some (day, month, year) \<Rightarrow>
                  (case month_names month of
                     Some month_num \<Rightarrow> Some (year @ ''-'' @ month_num @ ''-'' @ zfill 2 day)
                   | None \<Rightarrow> iso_search (strip s))
              | None \<Rightarrow> iso_search (strip s))"
    by (simp add: parse_date_def Let_def)
  then show ?thesis by (simp only: dmy_search_leftmost iso_search_leftmost)
qed

lemma iso_form_shaped:
  assumes "leftmost iso_form t = Some r"
  shows "iso_shaped r"
proof -
  from leftmost_Some [OF assms] obtain pre u where u: "t = pre @ u" "iso_form u = Some r"
    by (elim exE conjE)
  have "iso_form u = (if iso_shaped (take 10 u) then Some (take 10 u) else None)"
    by (simp add: iso_form_def)
  with u(2) show "iso_shaped r" by (cases "iso_shaped (take 10 u)") simp_all
qed

lemma parse_date_shape:
  assumes r: "parse_date s = Some r"
  shows "iso_shaped r"
proof (cases "leftmost dmy_form (strip s)")
  case None
  then have "parse_date s = leftmost iso_form (strip s)"
    by (simp add: parse_date_cases)
  with r show ?thesis by (simp add: iso_form_shaped)
next
  case (Some t)
  obtain day word year where t: "t = (day, word, year)" by (cases t)
  show ?thesis
  proof (cases "month_names word")
    case None
    with Some t have "parse_date s = leftmost iso_form (strip s)"
      by (simp add: parse_date_cases)
    with r show ?thesis by (simp add: iso_form_shaped)
  next
    case mm: (Some mm)
    with Some t have "parse_date s = Some (year @ ''-'' @ mm @ ''-'' @ zfill 2 day)"
      by (simp add: parse_date_cases)
    with r have r': "r = year @ ''-'' @ mm @ ''-'' @ zfill 2 day" by simp
    from Some t obtain pre u where "dmy_form u = Some (day, word, year)"
      using leftmost_Some [of dmy_form "strip s" t] by blast
    note sh = dmy_form_shape [OF this]
    from month_number [OF mm] obtain a b where m: "mm = [a, b]" "is_digit a" "is_digit b"
      by blast
    from sh have "\<exists>c d. zfill 2 day = [c, d] \<and> is_digit c \<and> is_digit d"
      by (intro zfill_day) simp_all
    then obtain c d where z: "zfill 2 day = [c, d]" "is_digit c" "is_digit d"
      by blast
    have "iso_shaped (year @ ''-'' @ [a, b] @ ''-'' @ [c, d])"
      by (rule iso_shaped_built) (use sh m z in simp_all)
    then show ?thesis unfolding r' m(1) z(1) .
  qed
qed

text \<open>
  C3, as amended. \<open>parse_date\<close> never fails, and it looks at one \<open>D word YYYY\<close> form
  only, the leftmost one of the stripped string: when the word of that form is a month
  name of the table, the result is \<open>YYYY-MM-DD\<close> with the month number of the table and
  the day padded to two digits. Otherwise, that is when the stripped string has no
  \<open>D word YYYY\<close> form or the word of the leftmost one is not in the table, the result is
  the leftmost \<open>dddd-dd-dd\<close> substring, verbatim, and \<open>None\<close> when there is none (the
  empty string gives \<open>None\<close> too). Every result has the shape \<open>dddd-dd-dd\<close>.
\<close>

theorem parse_date_forms:
  "parse_date s =
     (case leftmost dmy_form (strip s) of
        Some (day, word, year) \<Rightarrow>
          (case month_names word of
             Some month_num \<Rightarrow> Some (year @ ''-'' @ month_num @ ''-'' @ zfill 2 day)
           | None \<Rightarrow> leftmost iso_form (strip s))
      | None \<Rightarrow> leftmost iso_form (strip s))
   \<and> (\<forall>r. parse_date s = Some r \<longrightarrow> iso_shaped r)"
proof (rule conjI)
  show "parse_date s =
     (case leftmost dmy_form (strip s) of
        Some (day, word, year) \<Rightarrow>
          (case month_names word of
             Some month_num \<Rightarrow> Some (year @ ''-'' @ month_num @ ''-'' @ zfill 2 day)
           | None \<Rightarrow> leftmost iso_form (strip s))
      | None \<Rightarrow> leftmost iso_form (strip s))"
    by (rule parse_date_cases)
  show "\<forall>r. parse_date s = Some r \<longrightarrow> iso_shaped r"
    using parse_date_shape by blast
qed

text \<open>
  The three examples of the specification: \<open>15 March 2024\<close> gives \<open>2024-03-15\<close>,
  \<open>2024-03-15\<close> is unchanged, \<open>not a date\<close> is unparsed.
\<close>

theorem parse_date_forms_witness:
  "parse_date ''15 March 2024'' = Some ''2024-03-15''
   \<and> parse_date ''2024-03-15'' = Some ''2024-03-15''
   \<and> parse_date ''not a date'' = None
   \<and> iso_shaped ''2024-03-15''"
proof -
  have a: "(case leftmost dmy_form (strip ''15 March 2024'') of
        Some (day, word, year) \<Rightarrow>
          (case month_names word of
             Some month_num \<Rightarrow> Some (year @ ''-'' @ month_num @ ''-'' @ zfill 2 day)
           | None \<Rightarrow> leftmost iso_form (strip ''15 March 2024''))
      | None \<Rightarrow> leftmost iso_form (strip ''15 March 2024'')) = Some ''2024-03-15''"
    by code_simp
  have b: "(case leftmost dmy_form (strip ''2024-03-15'') of
        Some (day, word, year) \<Rightarrow>
          (case month_names word of
             Some month_num \<Rightarrow> Some (year @ ''-'' @ month_num @ ''-'' @ zfill 2 day)
           | None \<Rightarrow> leftmost iso_form (strip ''2024-03-15''))
      | None \<Rightarrow> leftmost iso_form (strip ''2024-03-15'')) = Some ''2024-03-15''"
    by code_simp
  have c: "(case leftmost dmy_form (strip ''not a date'') of
        Some (day, word, year) \<Rightarrow>
          (case month_names word of
             Some month_num \<Rightarrow> Some (year @ ''-'' @ month_num @ ''-'' @ zfill 2 day)
           | None \<Rightarrow> leftmost iso_form (strip ''not a date''))
      | None \<Rightarrow> leftmost iso_form (strip ''not a date'')) = None"
    by code_simp
  from a parse_date_forms [of "''15 March 2024''"]
  have 1: "parse_date ''15 March 2024'' = Some ''2024-03-15''" by simp
  with parse_date_forms [of "''15 March 2024''"] have 4: "iso_shaped ''2024-03-15''" by blast
  from b parse_date_forms [of "''2024-03-15''"]
  have 2: "parse_date ''2024-03-15'' = Some ''2024-03-15''" by simp
  from c parse_date_forms [of "''not a date''"]
  have 3: "parse_date ''not a date'' = None" by simp
  from 1 2 3 4 show ?thesis by blast
qed

text \<open>
  C3 as stated fails: \<open>31 Dec 2023 to 15 March 2024\<close> contains the form
  \<open>15 March 2024\<close>, whose month name is in the table, but the search stops at the
  leftmost form \<open>31 Dec 2023\<close>, whose word is not in the table, and the string has no
  ISO substring: the result is \<open>None\<close>, not \<open>2024-03-15\<close>.
\<close>

theorem later_month_form_counterexample:
  "has_month_form (strip ''31 Dec 2023 to 15 March 2024'')
   \<and> parse_date ''31 Dec 2023 to 15 March 2024'' = None"
  by code_simp

section \<open>Collision resolution\<close>











lemma digit_char_inj: "a < 10 \<Longrightarrow> b < 10 \<Longrightarrow> digit_char a = digit_char b \<Longrightarrow> a = b"
proof -
  assume a: "a < 10" and b: "b < 10" and e: "digit_char a = digit_char b"
  then have "(of_char (char_of (48 + a)) :: nat) = of_char (char_of (48 + b))"
    by (simp add: digit_char_def)
  with a b show "a = b" by simp
qed

lemma str_of_nat_nonempty: "str_of_nat n \<noteq> []"
  by (subst str_of_nat.simps) simp

lemma str_of_nat_inj: "str_of_nat n = str_of_nat m \<Longrightarrow> n = m"
proof (induction n arbitrary: m rule: str_of_nat.induct)
  case (1 n)
  show ?case
  proof (cases "n < 10")
    case True
    show ?thesis
    proof (cases "m < 10")
      case m: True
      from "1.prems" True m have "digit_char n = digit_char m"
        by (simp add: str_of_nat.simps [of n] str_of_nat.simps [of m])
      with True m show ?thesis using digit_char_inj by blast
    next
      case False
      with "1.prems" True str_of_nat_nonempty [of "m div 10"] show ?thesis
        by (simp add: str_of_nat.simps [of n] str_of_nat.simps [of m])
    qed
  next
    case False
    show ?thesis
    proof (cases "m < 10")
      case True
      with "1.prems" False str_of_nat_nonempty [of "n div 10"] show ?thesis
        by (simp add: str_of_nat.simps [of n] str_of_nat.simps [of m])
    next
      case m: False
      from "1.prems" False m
      have e: "str_of_nat (n div 10) = str_of_nat (m div 10)"
        "digit_char (n mod 10) = digit_char (m mod 10)"
        by (simp_all add: str_of_nat.simps [of n] str_of_nat.simps [of m])
      from "1.IH" [OF False e(1)] have d: "n div 10 = m div 10" .
      have "n mod 10 = m mod 10" by (rule digit_char_inj [OF _ _ e(2)]) simp_all
      with d show ?thesis by (metis div_mult_mod_eq)
    qed
  qed
qed

lemma next_filename_shape:
  "\<exists>stem. \<forall>n. next_filename base ext n = stem @ str_of_nat n @ ''.'' @ ext"
proof (cases "split_max ''_'' 1 base")
  case Nil
  then show ?thesis by (simp add: next_filename_def)
next
  case (Cons d ts)
  show ?thesis
  proof (cases ts)
    case Nil
    with Cons have "\<forall>n. next_filename base ext n = (base @ ''_At'') @ str_of_nat n @ ''.'' @ ext"
      by (simp add: next_filename_def)
    then show ?thesis by blast
  next
    case (Cons t ts')
    with \<open>split_max ''_'' 1 base = d # ts\<close>
    have "\<forall>n. next_filename base ext n
            = (d @ ''_'' @ sub_all at_pattern [] t @ ''_At'') @ str_of_nat n @ ''.'' @ ext"
      by (simp add: next_filename_def)
    then show ?thesis by blast
  qed
qed

lemma next_filename_inj: "next_filename base ext n = next_filename base ext m \<Longrightarrow> n = m"
proof -
  assume e: "next_filename base ext n = next_filename base ext m"
  obtain stem where "\<forall>n. next_filename base ext n = stem @ str_of_nat n @ ''.'' @ ext"
    using next_filename_shape by blast
  with e have "str_of_nat n @ (''.'' @ ext) = str_of_nat m @ (''.'' @ ext)" by simp
  then have "str_of_nat n = str_of_nat m" by (simp only: append_same_eq)
  then show ?thesis by (rule str_of_nat_inj)
qed

lemma free_counter:
  assumes "finite directory"
  shows "\<exists>n. 1 \<le> n \<and> next_filename base ext n \<notin> directory
             \<and> (\<forall>m. 1 \<le> m \<and> m < n \<longrightarrow> next_filename base ext m \<in> directory)"
proof -
  have "inj (next_filename base ext)" by (rule injI) (rule next_filename_inj)
  then have "finite (next_filename base ext -` directory)"
    using assms by (rule finite_vimageI [rotated])
  then have "\<exists>n. 1 \<le> n \<and> next_filename base ext n \<notin> directory"
    by (metis (no_types, lifting) finite_nat_set_iff_bounded_le not_less_eq_eq vimage_eq
          le_add1 plus_1_eq_Suc)
  then obtain n0 where n0: "1 \<le> n0 \<and> next_filename base ext n0 \<notin> directory" by blast
  define n where "n = (LEAST n. 1 \<le> n \<and> next_filename base ext n \<notin> directory)"
  have a: "1 \<le> n \<and> next_filename base ext n \<notin> directory"
    unfolding n_def by (rule LeastI [of _ n0]) (rule n0)
  have b: "\<forall>m. 1 \<le> m \<and> m < n \<longrightarrow> next_filename base ext m \<in> directory"
    unfolding n_def using not_less_Least by blast
  from a b show ?thesis by blast
qed

lemma check_loop_free:
  "next_filename base ext n \<notin> directory \<Longrightarrow> c < n \<Longrightarrow>
   (\<forall>m. c < m \<and> m < n \<longrightarrow> next_filename base ext m \<in> directory) \<Longrightarrow> f \<in> directory \<Longrightarrow>
   check_loop directory base ext c f = Some (next_filename base ext n)"
proof (induction "n - c" arbitrary: c f)
  case 0
  then show ?case by simp
next
  case (Suc d)
  have step: "check_loop directory base ext c f
                = check_loop directory base ext (c + 1) (next_filename base ext (c + 1))"
    using Suc.prems(4) by (subst check_loop.simps) simp
  show ?case
  proof (cases "c + 1 = n")
    case True
    with Suc.prems(1) show ?thesis unfolding step by (subst check_loop.simps) simp
  next
    case False
    with Suc.prems(2) have lt: "c + 1 < n" by simp
    have d: "d = n - (c + 1)" using Suc.hyps(2) by simp
    have "check_loop directory base ext (c + 1) (next_filename base ext (c + 1))
            = Some (next_filename base ext n)"
      using Suc.hyps(1) [OF d Suc.prems(1) lt] Suc.prems(3) lt by simp
    then show ?thesis unfolding step .
  qed
qed

lemma check_duplicate_filename_result:
  assumes "finite directory"
  shows "\<exists>name. check_duplicate_filename directory base ext = Some name \<and> name \<notin> directory
          \<and> (base @ ''.'' @ ext \<notin> directory \<longrightarrow> name = base @ ''.'' @ ext)
          \<and> (base @ ''.'' @ ext \<in> directory \<longrightarrow>
               (\<exists>n. 1 \<le> n \<and> name = next_filename base ext n
                    \<and> (\<forall>m. 1 \<le> m \<and> m < n \<longrightarrow> next_filename base ext m \<in> directory)))"
proof (cases "base @ ''.'' @ ext \<in> directory")
  case False
  then have "check_duplicate_filename directory base ext = Some (base @ ''.'' @ ext)"
    unfolding check_duplicate_filename_def by (subst check_loop.simps) simp
  with False show ?thesis by simp
next
  case True
  from free_counter [OF assms, of base ext] obtain n where
    n: "1 \<le> n" "next_filename base ext n \<notin> directory"
       "\<forall>m. 1 \<le> m \<and> m < n \<longrightarrow> next_filename base ext m \<in> directory"
    by blast
  have "check_loop directory base ext 0 (base @ ''.'' @ ext) = Some (next_filename base ext n)"
    by (rule check_loop_free [OF n(2) _ _ True]) (use n in auto)
  with True n show ?thesis unfolding check_duplicate_filename_def by auto
qed




section \<open>Processing the records\<close>

lemma process_publication_result:
  assumes "finite (downloads_dir w)"
  shows "\<exists>pdf_name json_name.
     check_duplicate_filename (downloads_dir w) (generate_filename d t 0) ''pdf'' = Some pdf_name
     \<and> check_duplicate_filename (downloads_dir w) (generate_filename d t 0) ''json''
           = Some json_name
     \<and> json_name \<notin> downloads_dir w
     \<and> process_publication env w (d, t, u) =
         Some (let w1 = (if retrieval_succeeded env u \<or> leaves_file env
                         then w\<lparr>downloads_dir := insert pdf_name (downloads_dir w)\<rparr> else w)
               in if retrieval_succeeded env u
                  then (case sidecar_write env of
                          Raised e \<Rightarrow> (Raised e, w1)
                        | Returned written \<Rightarrow>
                            (Returned True,
                             save_metadata
                               (generate_metadata (clock_when_parsing_fails env)
                                  (clock_at_creation env) (strptime_at_nine env) d t u
                                  (extracted_creator env u))
                               json_name w1))
                  else (Returned False, w1))"
proof -
  from check_duplicate_filename_result [OF assms, of "generate_filename d t 0" "''pdf''"]
  obtain pdf_name where p:
    "check_duplicate_filename (downloads_dir w) (generate_filename d t 0) ''pdf'' = Some pdf_name"
    by blast
  from check_duplicate_filename_result [OF assms, of "generate_filename d t 0" "''json''"]
  obtain json_name where j:
    "check_duplicate_filename (downloads_dir w) (generate_filename d t 0) ''json'' = Some json_name"
    "json_name \<notin> downloads_dir w"
    by blast
  have "process_publication env w (d, t, u) =
         Some (let w1 = (if retrieval_succeeded env u \<or> leaves_file env
                         then w\<lparr>downloads_dir := insert pdf_name (downloads_dir w)\<rparr> else w)
               in if retrieval_succeeded env u
                  then (case sidecar_write env of
                          Raised e \<Rightarrow> (Raised e, w1)
                        | Returned written \<Rightarrow>
                            (Returned True,
                             save_metadata
                               (generate_metadata (clock_when_parsing_fails env)
                                  (clock_at_creation env) (strptime_at_nine env) d t u
                                  (extracted_creator env u))
                               json_name w1))
                  else (Returned False, w1))"
    by (simp add: process_publication_def Let_def p j(1) retrieval_succeeded_def
          extracted_creator_def split: prod.splits outcome.splits)
  with p j show ?thesis by blast
qed

lemma process_publication_cases:
  assumes "finite (downloads_dir w)"
  shows "\<exists>res w'. process_publication env w (d, t, u) = Some (res, w')
     \<and> finite (downloads_dir w')
     \<and> (retrieval_succeeded env u \<and> \<not> is_raised (sidecar_write env) \<longrightarrow>
          res = Returned True
          \<and> (\<exists>json_name.
                check_duplicate_filename (downloads_dir w) (generate_filename d t 0) ''json''
                  = Some json_name
                \<and> json_name \<notin> downloads_dir w
                \<and> sidecars w' = sidecars w @
                     [(json_name,
                       generate_metadata (clock_when_parsing_fails env) (clock_at_creation env)
                         (strptime_at_nine env) d t u (extracted_creator env u))]))
     \<and> (\<forall>e. retrieval_succeeded env u \<and> sidecar_write env = Raised e \<longrightarrow>
          res = Raised e \<and> sidecars w' = sidecars w)
     \<and> (\<not> retrieval_succeeded env u \<longrightarrow> res = Returned False \<and> sidecars w' = sidecars w)"
proof -
  from process_publication_result [OF assms, of d t env u]
  obtain pdf_name json_name where
    j: "check_duplicate_filename (downloads_dir w) (generate_filename d t 0) ''json''
          = Some json_name" "json_name \<notin> downloads_dir w"
    and r: "process_publication env w (d, t, u) =
         Some (let w1 = (if retrieval_succeeded env u \<or> leaves_file env
                         then w\<lparr>downloads_dir := insert pdf_name (downloads_dir w)\<rparr> else w)
               in if retrieval_succeeded env u
                  then (case sidecar_write env of
                          Raised e \<Rightarrow> (Raised e, w1)
                        | Returned written \<Rightarrow>
                            (Returned True,
                             save_metadata
                               (generate_metadata (clock_when_parsing_fails env)
                                  (clock_at_creation env) (strptime_at_nine env) d t u
                                  (extracted_creator env u))
                               json_name w1))
                  else (Returned False, w1))"
    by blast
  show ?thesis
  proof (cases "retrieval_succeeded env u")
    case False
    with r assms show ?thesis by (simp add: Let_def)
  next
    case True
    show ?thesis
    proof (cases "sidecar_write env")
      case (Raised e)
      with True r assms show ?thesis by (simp add: Let_def is_raised_def)
    next
      case (Returned written)
      with True r assms j show ?thesis
        by (simp add: Let_def is_raised_def save_metadata_def)
    qed
  qed
qed

lemma numbered_Cons: "numbered i (x # xs) = (i, x) # numbered (Suc i) xs"
proof -
  have "[i ..< i + length (x # xs)] = i # [Suc i ..< Suc i + length xs]"
    by (simp add: upt_conv_Cons del: upt_Suc)
  then show ?thesis unfolding numbered_def by simp
qed

lemma stored_count_Nil: "stored_count envs i [] = 0"
  by (simp add: stored_count_def numbered_def)

lemma stored_count_Cons:
  "stored_count envs i (r # rs)
     = (if stored (envs i) r then 1 else 0) + stored_count envs (Suc i) rs"
  by (simp add: stored_count_def numbered_Cons)

lemma process_publication_counted:
  assumes "finite (downloads_dir w)"
  shows "\<exists>res w'. process_publication env w r = Some (res, w')
     \<and> finite (downloads_dir w')
     \<and> (stored env r \<longrightarrow> res = Returned True
           \<and> length (sidecars w') = Suc (length (sidecars w)))
     \<and> (\<not> stored env r \<longrightarrow> res \<noteq> Returned True
           \<and> length (sidecars w') = length (sidecars w))"
proof -
  obtain d t u where r: "r = (d, t, u)" by (cases r)
  from process_publication_cases [OF assms, of env d t u]
  obtain res w' where p: "process_publication env w (d, t, u) = Some (res, w')"
    "finite (downloads_dir w')"
    "retrieval_succeeded env u \<and> \<not> is_raised (sidecar_write env) \<longrightarrow>
          res = Returned True
          \<and> (\<exists>json_name.
                check_duplicate_filename (downloads_dir w) (generate_filename d t 0) ''json''
                  = Some json_name
                \<and> json_name \<notin> downloads_dir w
                \<and> sidecars w' = sidecars w @
                     [(json_name,
                       generate_metadata (clock_when_parsing_fails env) (clock_at_creation env)
                         (strptime_at_nine env) d t u (extracted_creator env u))])"
    "\<forall>e. retrieval_succeeded env u \<and> sidecar_write env = Raised e \<longrightarrow>
          res = Raised e \<and> sidecars w' = sidecars w"
    "\<not> retrieval_succeeded env u \<longrightarrow> res = Returned False \<and> sidecars w' = sidecars w"
    by blast
  have a: "stored env r \<longrightarrow> res = Returned True
           \<and> length (sidecars w') = Suc (length (sidecars w))"
    using p(3) by (auto simp: stored_def r)
  have b: "\<not> stored env r \<longrightarrow> res \<noteq> Returned True
           \<and> length (sidecars w') = length (sidecars w)"
  proof
    assume n: "\<not> stored env r"
    show "res \<noteq> Returned True \<and> length (sidecars w') = length (sidecars w)"
    proof (cases "retrieval_succeeded env u")
      case False
      with p(5) show ?thesis by simp
    next
      case True
      with n have "is_raised (sidecar_write env)" by (simp add: stored_def r)
      then obtain e where "sidecar_write env = Raised e"
        by (cases "sidecar_write env") (simp_all add: is_raised_def)
      with True p(4) show ?thesis by simp
    qed
  qed
  from p(1,2) a b show ?thesis unfolding r by blast
qed

lemma batch_loop_counts:
  "finite (downloads_dir w) \<Longrightarrow>
   \<exists>successful failed w'.
     batch_loop envs i records w s0 f0 = Some (successful, failed, w')
     \<and> successful = s0 + stored_count envs i records
     \<and> successful + failed = s0 + f0 + length records
     \<and> length (sidecars w') = length (sidecars w) + stored_count envs i records
     \<and> finite (downloads_dir w')"
proof (induction records arbitrary: i w s0 f0)
  case Nil
  then show ?case by (simp add: stored_count_Nil)
next
  case (Cons r rs)
  from process_publication_counted [OF Cons.prems, of "envs i" r]
  obtain res w1 where p: "process_publication (envs i) w r = Some (res, w1)"
    "finite (downloads_dir w1)"
    "stored (envs i) r \<longrightarrow> res = Returned True
           \<and> length (sidecars w1) = Suc (length (sidecars w))"
    "\<not> stored (envs i) r \<longrightarrow> res \<noteq> Returned True
           \<and> length (sidecars w1) = length (sidecars w)"
    by blast
  show ?case
  proof (cases "stored (envs i) r")
    case True
    with p have res: "res = Returned True" and l: "length (sidecars w1) = Suc (length (sidecars w))"
      by simp_all
    from Cons.IH [OF p(2), of "Suc i" "s0 + 1" f0]
    obtain s f w' where b: "batch_loop envs (Suc i) rs w1 (s0 + 1) f0 = Some (s, f, w')"
      "s = s0 + 1 + stored_count envs (Suc i) rs"
      "s + f = s0 + 1 + f0 + length rs"
      "length (sidecars w') = length (sidecars w1) + stored_count envs (Suc i) rs"
      "finite (downloads_dir w')"
      by blast
    have "batch_loop envs i (r # rs) w s0 f0 = Some (s, f, w')"
      using p(1) res b(1) by simp
    with b l True show ?thesis by (simp add: stored_count_Cons)
  next
    case False
    with p have res: "res \<noteq> Returned True" and l: "length (sidecars w1) = length (sidecars w)"
      by simp_all
    from Cons.IH [OF p(2), of "Suc i" s0 "f0 + 1"]
    obtain s f w' where b: "batch_loop envs (Suc i) rs w1 s0 (f0 + 1) = Some (s, f, w')"
      "s = s0 + stored_count envs (Suc i) rs"
      "s + f = s0 + (f0 + 1) + length rs"
      "length (sidecars w') = length (sidecars w1) + stored_count envs (Suc i) rs"
      "finite (downloads_dir w')"
      by blast
    have "batch_loop envs i (r # rs) w s0 f0 = Some (s, f, w')"
    proof (cases res)
      case (Raised e)
      with p(1) b(1) show ?thesis by simp
    next
      case (Returned v)
      with res have "\<not> v" by simp
      with Returned p(1) b(1) show ?thesis by simp
    qed
    with b l False show ?thesis by (simp add: stored_count_Cons)
  qed
qed

lemma process_publications_file_counts:
  assumes "finite (downloads_dir w)"
  shows "\<exists>successful failed w'.
     process_publications_file envs w file = Some (successful, failed, w')
     \<and> successful = stored_count envs 0 (read_publications_file file)
     \<and> successful + failed = length (read_publications_file file)
     \<and> length (sidecars w') = length (sidecars w) + successful"
proof (cases "read_publications_file file = []")
  case True
  then show ?thesis by (simp add: process_publications_file_def stored_count_Nil)
next
  case False
  from batch_loop_counts [OF assms, of envs 0 "read_publications_file file" 0 0]
  obtain s f w' where
    "batch_loop envs 0 (read_publications_file file) w 0 0 = Some (s, f, w')"
    "s = 0 + stored_count envs 0 (read_publications_file file)"
    "s + f = 0 + 0 + length (read_publications_file file)"
    "length (sidecars w') = length (sidecars w) + stored_count envs 0 (read_publications_file file)"
    by blast
  with False show ?thesis by (simp add: process_publications_file_def Let_def)
qed

lemma check_duplicate_filename_free:
  "base @ ''.'' @ ext \<notin> directory \<Longrightarrow>
     check_duplicate_filename directory base ext = Some (base @ ''.'' @ ext)"
  unfolding check_duplicate_filename_def by (subst check_loop.simps) simp

text \<open>
  C7, as amended. The downloads directory holds finitely many names. For every record,
  \<open>process_publication\<close> ends, and a sidecar is written if and only if the retrieval of
  the record (the direct fetch for a url that ends in \<open>.pdf\<close>, the render path otherwise)
  succeeded and the writing of the sidecar did not raise: then the function returns
  \<open>True\<close> and the one new sidecar is the descriptor of the record, under the free
  \<open>json\<close> name of its base name. When the retrieval failed the function returns \<open>False\<close>
  and writes no sidecar; when the retrieval succeeded and the writing raises, the
  exception leaves the function and there is no sidecar either. The batch processes
  every record of the file: it ends with the two counts, the successful records are the
  stored ones, each record is counted once, as successful or as failed, and the number of
  sidecars grows by the number of successful records.
\<close>

theorem sidecar_iff_stored:
  assumes "finite (downloads_dir w)"
  shows "(\<exists>res w'. process_publication env w (d, t, u) = Some (res, w')
           \<and> (retrieval_succeeded env u \<and> \<not> is_raised (sidecar_write env) \<longrightarrow>
                res = Returned True
                \<and> (\<exists>json_name.
                      check_duplicate_filename (downloads_dir w) (generate_filename d t 0)
                          ''json'' = Some json_name
                      \<and> json_name \<notin> downloads_dir w
                      \<and> sidecars w' = sidecars w @
                           [(json_name,
                             generate_metadata (clock_when_parsing_fails env)
                               (clock_at_creation env) (strptime_at_nine env) d t u
                               (extracted_creator env u))]))
           \<and> (\<forall>e. retrieval_succeeded env u \<and> sidecar_write env = Raised e \<longrightarrow>
                res = Raised e \<and> sidecars w' = sidecars w)
           \<and> (\<not> retrieval_succeeded env u \<longrightarrow>
                res = Returned False \<and> sidecars w' = sidecars w))
       \<and> (\<exists>successful failed w'.
             process_publications_file envs w file = Some (successful, failed, w')
             \<and> successful = stored_count envs 0 (read_publications_file file)
             \<and> successful + failed = length (read_publications_file file)
             \<and> length (sidecars w') = length (sidecars w) + successful)"
proof (rule conjI)
  from process_publication_cases [OF assms, of env d t u]
  show "\<exists>res w'. process_publication env w (d, t, u) = Some (res, w')
           \<and> (retrieval_succeeded env u \<and> \<not> is_raised (sidecar_write env) \<longrightarrow>
                res = Returned True
                \<and> (\<exists>json_name.
                      check_duplicate_filename (downloads_dir w) (generate_filename d t 0)
                          ''json'' = Some json_name
                      \<and> json_name \<notin> downloads_dir w
                      \<and> sidecars w' = sidecars w @
                           [(json_name,
                             generate_metadata (clock_when_parsing_fails env)
                               (clock_at_creation env) (strptime_at_nine env) d t u
                               (extracted_creator env u))]))
           \<and> (\<forall>e. retrieval_succeeded env u \<and> sidecar_write env = Raised e \<longrightarrow>
                res = Raised e \<and> sidecars w' = sidecars w)
           \<and> (\<not> retrieval_succeeded env u \<longrightarrow>
                res = Returned False \<and> sidecars w' = sidecars w)"
    by blast
  show "\<exists>successful failed w'.
             process_publications_file envs w file = Some (successful, failed, w')
             \<and> successful = stored_count envs 0 (read_publications_file file)
             \<and> successful + failed = length (read_publications_file file)
             \<and> length (sidecars w') = length (sidecars w) + successful"
    by (rule process_publications_file_counts [OF assms])
qed

text \<open>
  A file of two records: a \<open>.pdf\<close> url that the primary transport fetches, and a page
  whose rendering fails. The first gets its sidecar, the second none, and the counts are
  one successful and one failed.
\<close>

theorem sidecar_iff_stored_witness:
  "finite (downloads_dir \<lparr>downloads_dir = {}, sidecars = []\<rparr>)
   \<and> retrieval_succeeded (example_environment (Returned ())) ''https://www.ecb.europa.eu/a.pdf''
   \<and> \<not> is_raised (sidecar_write (example_environment (Returned ())))
   \<and> (\<exists>w'. process_publication (example_environment (Returned ())) \<lparr>downloads_dir = {}, sidecars = []\<rparr>
                 (''2024-03-15'', ''Annual Report'', ''https://www.ecb.europa.eu/a.pdf'')
               = Some (Returned True, w')
          \<and> map fst (sidecars w') = [''2024-03-15_Annual_Report.json''])
   \<and> \<not> retrieval_succeeded (example_environment (Returned ())) ''https://www.ecb.europa.eu/b.html''
   \<and> (\<exists>w'. process_publication (example_environment (Returned ())) \<lparr>downloads_dir = {}, sidecars = []\<rparr>
                 (''2024-03-14'', ''A page'', ''https://www.ecb.europa.eu/b.html'')
               = Some (Returned False, w')
          \<and> sidecars w' = [])
   \<and> (\<exists>successful failed w'.
         process_publications_file (always (example_environment (Returned ()))) \<lparr>downloads_dir = {}, sidecars = []\<rparr>
           (Some (''2024-03-15 | Annual Report | https://www.ecb.europa.eu/a.pdf'' @ [CHR 0x0A]
              @ ''2024-03-14 | A page | https://www.ecb.europa.eu/b.html'' @ [CHR 0x0A]))
           = Some (successful, failed, w')
         \<and> successful = 1 \<and> failed = 1 \<and> length (sidecars w') = 1)"
proof -
  let ?env = "example_environment (Returned ())"
  let ?w = "\<lparr>downloads_dir = {}, sidecars = []\<rparr>"
  let ?file = "(Some (''2024-03-15 | Annual Report | https://www.ecb.europa.eu/a.pdf'' @ [CHR 0x0A]
              @ ''2024-03-14 | A page | https://www.ecb.europa.eu/b.html'' @ [CHR 0x0A]))"
  have f: "finite (downloads_dir ?w)" by simp
  have a: "retrieval_succeeded ?env ''https://www.ecb.europa.eu/a.pdf''" by code_simp
  have b: "\<not> is_raised (sidecar_write ?env)" by code_simp
  have c: "\<not> retrieval_succeeded ?env ''https://www.ecb.europa.eu/b.html''" by code_simp
  have g: "generate_filename ''2024-03-15'' ''Annual Report'' 0 = ''2024-03-15_Annual_Report''"
    by code_simp
  have j: "check_duplicate_filename (downloads_dir ?w) ''2024-03-15_Annual_Report'' ''json''
             = Some ''2024-03-15_Annual_Report.json''"
    using check_duplicate_filename_free [of "''2024-03-15_Annual_Report''" "''json''" "{}"]
    by simp
  from sidecar_iff_stored [OF f, of ?env "''2024-03-15''" "''Annual Report''"
      "''https://www.ecb.europa.eu/a.pdf''" "always ?env" ?file] a b
  have 1: "\<exists>w'. process_publication ?env ?w (''2024-03-15'', ''Annual Report'', ''https://www.ecb.europa.eu/a.pdf'') = Some (Returned True, w')
          \<and> map fst (sidecars w') = [''2024-03-15_Annual_Report.json'']"
    unfolding g j by auto
  from sidecar_iff_stored [OF f, of ?env "''2024-03-14''" "''A page''"
      "''https://www.ecb.europa.eu/b.html''" "always ?env" ?file] c
  have 2: "\<exists>w'. process_publication ?env ?w (''2024-03-14'', ''A page'', ''https://www.ecb.europa.eu/b.html'') = Some (Returned False, w')
          \<and> sidecars w' = []"
    by auto
  have r: "length (read_publications_file ?file) = 2" by code_simp
  have n: "stored_count (always ?env) 0 (read_publications_file ?file) = 1" by code_simp
  from sidecar_iff_stored [OF f, of ?env "[]" "[]" "[]" "always ?env" ?file]
  obtain successful failed w' where
    "process_publications_file (always ?env) ?w ?file = Some (successful, failed, w')"
    "successful = stored_count (always ?env) 0 (read_publications_file ?file)"
    "successful + failed = length (read_publications_file ?file)"
    "length (sidecars w') = length (sidecars ?w) + successful"
    by blast
  with r n have "process_publications_file (always ?env) ?w ?file = Some (successful, failed, w')
         \<and> successful = 1 \<and> failed = 1 \<and> length (sidecars w') = 1"
    by simp
  then have 3: "\<exists>successful failed w'.
         process_publications_file (always ?env) ?w ?file = Some (successful, failed, w')
         \<and> successful = 1 \<and> failed = 1 \<and> length (sidecars w') = 1"
    by blast
  from f a b 1 c 2 3 show ?thesis by (intro conjI)
qed

text \<open>
  C7 as stated fails: the retrieval of the record succeeds, the writing of the sidecar
  raises \<open>OSError\<close>, and no sidecar is written although the retrieval succeeded; the
  batch loop catches the exception and counts the record as failed.
\<close>

theorem sidecar_write_failure_counterexample:
  "retrieval_succeeded (example_environment (Raised OSError)) ''https://www.ecb.europa.eu/a.pdf''
   \<and> process_publication (example_environment (Raised OSError)) \<lparr>downloads_dir = {}, sidecars = []\<rparr>
         (''2024-03-15'', ''Annual Report'', ''https://www.ecb.europa.eu/a.pdf'')
       = Some (Raised OSError,
               \<lparr>downloads_dir = {''2024-03-15_Annual_Report.pdf''}, sidecars = []\<rparr>)
   \<and> process_publications_file (always (example_environment (Raised OSError))) \<lparr>downloads_dir = {}, sidecars = []\<rparr>
         (Some (''2024-03-15 | Annual Report | https://www.ecb.europa.eu/a.pdf'' @ [CHR 0x0A]))
       = Some (0, 1, \<lparr>downloads_dir = {''2024-03-15_Annual_Report.pdf''}, sidecars = []\<rparr>)"
proof -
  let ?env = "example_environment (Raised OSError)"
  let ?w = "\<lparr>downloads_dir = {}, sidecars = []\<rparr>"
  have a: "retrieval_succeeded ?env ''https://www.ecb.europa.eu/a.pdf''" by code_simp
  have s: "sidecar_write ?env = Raised OSError" by code_simp
  have g: "generate_filename ''2024-03-15'' ''Annual Report'' 0 = ''2024-03-15_Annual_Report''"
    by code_simp
  have p: "check_duplicate_filename (downloads_dir ?w) ''2024-03-15_Annual_Report'' ''pdf''
             = Some ''2024-03-15_Annual_Report.pdf''"
    using check_duplicate_filename_free [of "''2024-03-15_Annual_Report''" "''pdf''" "{}"]
    by simp
  have f: "finite (downloads_dir ?w)" by simp
  from process_publication_result [OF f, of "''2024-03-15''" "''Annual Report''" ?env
      "''https://www.ecb.europa.eu/a.pdf''"]
  have b: "process_publication ?env ?w (''2024-03-15'', ''Annual Report'', ''https://www.ecb.europa.eu/a.pdf'')
        = Some (Raised OSError,
             \<lparr>downloads_dir = {''2024-03-15_Annual_Report.pdf''}, sidecars = []\<rparr>)"
    unfolding g p using a s by (auto simp: Let_def)
  have r: "read_publications_file
             (Some (''2024-03-15 | Annual Report | https://www.ecb.europa.eu/a.pdf''
                    @ [CHR 0x0A]))
           = [(''2024-03-15'', ''Annual Report'', ''https://www.ecb.europa.eu/a.pdf'')]"
    by code_simp
  have c: "process_publications_file (always ?env) ?w
         (Some (''2024-03-15 | Annual Report | https://www.ecb.europa.eu/a.pdf'' @ [CHR 0x0A]))
       = Some (0, 1, \<lparr>downloads_dir = {''2024-03-15_Annual_Report.pdf''}, sidecars = []\<rparr>)"
    unfolding process_publications_file_def r by (simp add: always_def b)
  from a b c show ?thesis by (intro conjI)
qed

end
